theory Spec2Isabelle
  imports Main "HOL-Library.Word" "HOL-Library.Signed_Division" "HOL-Library.Sublist"
begin

unbundle bit_operations_syntax

section \<open>Machine types and the run-time failures of Go\<close>

text \<open>
  The embedding follows \<^verbatim>\<open>protocol/protocol.go\<close>. Go's \<^verbatim>\<open>byte\<close> is an
  8-bit word, \<^verbatim>\<open>int\<close> is the 64-bit signed integer of the usual targets (addition and
  multiplication wrap, comparisons are signed), \<^verbatim>\<open>uint16\<close> is the checksum's result
  type and \<^verbatim>\<open>time.Duration\<close> is an \<^verbatim>\<open>int64\<close> count of nanoseconds.
\<close>

type_synonym byte = "8 word"
type_synonym go_int = "64 word"
type_synonym uint16 = "16 word"
type_synonym duration = "64 word"

text \<open>A run-time panic of Go is a value: every function that can panic returns a sum.\<close>

datatype panic =
    IndexOutOfRange
  | SliceBoundsOutOfRange
  | MakesliceLenOutOfRange
  | IntegerDivideByZero
  | IntnInvalidArgument

text \<open>\<^verbatim>\<open>xs[i]\<close>: panics unless \<open>0 \<le> i < len(xs)\<close>.\<close>

definition go_index :: "'a list \<Rightarrow> go_int \<Rightarrow> panic + 'a" where
  "go_index xs i =
     (if 0 \<le>s i \<and> nat (sint i) < length xs then Inr (xs ! nat (sint i))
      else Inl IndexOutOfRange)"

text \<open>
  \<^verbatim>\<open>xs[lo:hi]\<close>: panics unless \<open>0 \<le> lo \<le> hi \<le> cap(xs)\<close>. The list stands for
  the whole extent of the slice (length and capacity agree).
\<close>

definition go_slice :: "'a list \<Rightarrow> go_int \<Rightarrow> go_int \<Rightarrow> panic + 'a list" where
  "go_slice xs lo hi =
     (if 0 \<le>s lo \<and> lo \<le>s hi \<and> nat (sint hi) \<le> length xs
      then Inr (take (nat (sint hi) - nat (sint lo)) (drop (nat (sint lo)) xs))
      else Inl SliceBoundsOutOfRange)"

text \<open>\<^verbatim>\<open>xs[k:]\<close> for a constant \<open>k\<close>: panics unless \<open>k \<le> len(xs)\<close>.\<close>

definition go_slice_from :: "'a list \<Rightarrow> nat \<Rightarrow> panic + 'a list" where
  "go_slice_from xs k = (if k \<le> length xs then Inr (drop k xs) else Inl SliceBoundsOutOfRange)"

text \<open>\<^verbatim>\<open>a % b\<close> on \<^verbatim>\<open>int\<close>: the remainder of the truncating division; panics when \<open>b = 0\<close>.\<close>

definition go_rem :: "go_int \<Rightarrow> go_int \<Rightarrow> panic + go_int" where
  "go_rem a b = (if b = 0 then Inl IntegerDivideByZero else Inr (word_of_int (sint a smod sint b)))"

text \<open>
  \<^verbatim>\<open>rand.Intn(n)\<close> of the standard library: a value of the half-open interval \<open>[0, n)\<close>,
  and a panic when \<open>n \<le> 0\<close>. The generator's next raw draw is the argument \<open>u\<close>; every
  value of the interval is returned for some draw.
\<close>

definition rand_Intn :: "nat \<Rightarrow> go_int \<Rightarrow> panic + go_int" where
  "rand_Intn u n =
     (if n \<le>s 0 then Inl IntnInvalidArgument else Inr (word_of_nat (u mod nat (sint n))))"

text \<open>\<^verbatim>\<open>time.Microsecond\<close>, in nanoseconds.\<close>

definition Microsecond :: duration where
  "Microsecond = 1000"

section \<open>The collaborators outside the file\<close>

text \<open>
  Modelled from the spec: the packages \<^verbatim>\<open>dsp\<close> and \<^verbatim>\<open>crc\<close> are imported by
  \<^verbatim>\<open>protocol.go\<close> and are not part of the sources at hand. Of
  \<^verbatim>\<open>dsp.PacketConfig\<close> the file reads the symbol length and the sample rate; of
  \<^verbatim>\<open>dsp.Packet\<close> the sample index and the payload bytes; of \<^verbatim>\<open>dsp.Demodulator\<close>
  the discriminator trace; of \<^verbatim>\<open>crc.CRC\<close> the method \<^verbatim>\<open>Checksum\<close>. Each packet
  owns its payload array.
\<close>

record PacketConfig =
  SymbolLength :: go_int
  SampleRate :: go_int

record Packet =
  Idx :: go_int
  Data :: "byte list"

text \<open>
  Modelled from the spec: the three constructors of the absent packages that
  \<^verbatim>\<open>NewParser\<close> calls. They are parameters of the model; \<open>'f\<close> is the type of the
  trace's samples (\<^verbatim>\<open>float64\<close> in the source).
\<close>

record 'f collaborators =
  dsp_NewPacketConfig :: "go_int \<Rightarrow> go_int \<Rightarrow> go_int \<Rightarrow> go_int \<Rightarrow> string \<Rightarrow> PacketConfig"
  dsp_NewDemodulator :: "PacketConfig \<Rightarrow> 'f list"
  crc_NewCRC :: "string \<Rightarrow> uint16 \<Rightarrow> uint16 \<Rightarrow> uint16 \<Rightarrow> byte list \<Rightarrow> uint16"

text \<open>
  The arithmetic of \<^verbatim>\<open>float64\<close> that \<^verbatim>\<open>Parse\<close> uses, as parameters: the zero
  value, addition, multiplication, division, the conversions \<^verbatim>\<open>float64(n)\<close> and
  \<^verbatim>\<open>int(x)\<close>, and the constant \<^verbatim>\<open>2*math.Pi\<close>.
\<close>

record 'f float64_ops =
  f64_zero :: 'f
  f64_add :: "'f \<Rightarrow> 'f \<Rightarrow> 'f"
  f64_mul :: "'f \<Rightarrow> 'f \<Rightarrow> 'f"
  f64_div :: "'f \<Rightarrow> 'f \<Rightarrow> 'f"
  f64_of_int :: "go_int \<Rightarrow> 'f"
  f64_to_int :: "'f \<Rightarrow> go_int"
  f64_two_pi :: 'f

section \<open>Bit-order reversal\<close>

text \<open>\<^verbatim>\<open>SwapBitOrder\<close>: three masked swaps, each assigned back to \<open>b\<close>.\<close>

definition SwapBitOrder :: "byte \<Rightarrow> byte" where
  "SwapBitOrder b0 =
     (let b1 = drop_bit 4 (b0 AND 0xF0) OR push_bit 4 (b0 AND 0x0F);
          b2 = drop_bit 2 (b1 AND 0xCC) OR push_bit 2 (b1 AND 0x33);
          b3 = drop_bit 1 (b2 AND 0xAA) OR push_bit 1 (b2 AND 0x55)
      in b3)"

section \<open>The parser and the hop sequencer\<close>

text \<open>
  \<^verbatim>\<open>Parser\<close>. The embedded \<^verbatim>\<open>dsp.Demodulator\<close> and \<^verbatim>\<open>crc.CRC\<close> appear through
  what the file uses of them, the promoted field \<^verbatim>\<open>Discriminated\<close> and the promoted
  method \<^verbatim>\<open>Checksum\<close>.
\<close>

record 'f Parser =
  Discriminated :: "'f list"
  Checksum :: "byte list \<Rightarrow> uint16"
  Cfg :: PacketConfig
  ID :: go_int
  DwellTime :: duration
  channelCount :: go_int
  channels :: "go_int list"
  hopIdx :: go_int
  hopPattern :: "go_int list"
  currentFreqErr :: go_int
  channelFreqErr :: "go_int \<rightharpoonup> go_int"

definition NewPacketConfig :: "'f collaborators \<Rightarrow> go_int \<Rightarrow> PacketConfig" where
  "NewPacketConfig ext symbolLength =
     dsp_NewPacketConfig ext 19200 14 16 80 ''1100101110001001''"

text \<open>
  \<^verbatim>\<open>NewParser\<close>. \<open>u\<close> is the raw draw consumed by \<^verbatim>\<open>rand.Intn\<close>. The map starts
  empty and \<^verbatim>\<open>currentFreqErr\<close> at its zero value.
\<close>

definition NewParser :: "'f collaborators \<Rightarrow> nat \<Rightarrow> go_int \<Rightarrow> go_int \<Rightarrow> panic + 'f Parser" where
  "NewParser ext u symbolLength ident =
     (let cfg = NewPacketConfig ext symbolLength;
          chans = [867500000, 867625000, 867750000, 867875000,
                   868000000, 868125000, 868250000, 868375000, 868500000];
          cnt = word_of_nat (length chans)
      in case rand_Intn u cnt of
           Inl e \<Rightarrow> Inl e
         | Inr i \<Rightarrow>
             Inr \<lparr> Discriminated = dsp_NewDemodulator ext cfg,
                   Checksum = crc_NewCRC ext ''CCITT-16'' 0 0x1021 0,
                   Cfg = cfg,
                   ID = ident,
                   DwellTime = 3000 * Microsecond + ident * 62500 * Microsecond,
                   channelCount = cnt,
                   channels = chans,
                   hopIdx = i,
                   hopPattern = [0, 4, 8, 1, 5, 3, 6, 2, 7],
                   currentFreqErr = 0,
                   channelFreqErr = Map.empty \<rparr>)"

record Hop =
  ChannelIdx :: go_int
  ChannelFreq :: go_int
  FreqError :: go_int

text \<open>
  \<^verbatim>\<open>Parser.hop\<close>: the descriptor of the current pattern index. A channel with a
  recorded error makes it the current error; otherwise the current error stays.
\<close>

definition hop :: "'f Parser \<Rightarrow> panic + (Hop \<times> 'f Parser)" where
  "hop p =
     (case go_index (hopPattern p) (hopIdx p) of
        Inl e \<Rightarrow> Inl e
      | Inr ci \<Rightarrow>
          (case go_index (channels p) ci of
             Inl e \<Rightarrow> Inl e
           | Inr cf \<Rightarrow>
               (let p' = (case channelFreqErr p ci of
                            Some freqErr \<Rightarrow> p\<lparr>currentFreqErr := freqErr\<rparr>
                          | None \<Rightarrow> p)
                in Inr (\<lparr>ChannelIdx = ci, ChannelFreq = cf, FreqError = currentFreqErr p'\<rparr>, p'))))"

definition NextHop :: "'f Parser \<Rightarrow> panic + (Hop \<times> 'f Parser)" where
  "NextHop p =
     (case go_rem (hopIdx p + 1) (channelCount p) of
        Inl e \<Rightarrow> Inl e
      | Inr i \<Rightarrow> hop (p\<lparr>hopIdx := i\<rparr>))"

definition RandHop :: "nat \<Rightarrow> 'f Parser \<Rightarrow> panic + (Hop \<times> 'f Parser)" where
  "RandHop u p =
     (case rand_Intn u (channelCount p) of
        Inl e \<Rightarrow> Inl e
      | Inr i \<Rightarrow> hop (p\<lparr>hopIdx := i\<rparr>))"

text \<open>\<open>n\<close> successive calls of \<^verbatim>\<open>NextHop\<close>, with the descriptors in call order.\<close>

fun NextHops :: "nat \<Rightarrow> 'f Parser \<Rightarrow> panic + (Hop list \<times> 'f Parser)" where
  "NextHops 0 p = Inr ([], p)"
| "NextHops (Suc n) p =
     (case NextHop p of
        Inl e \<Rightarrow> Inl e
      | Inr (h, p') \<Rightarrow>
          (case NextHops n p' of
             Inl e \<Rightarrow> Inl e
           | Inr (hs, p'') \<Rightarrow> Inr (h # hs, p'')))"

section \<open>Messages\<close>

type_synonym Sensor = byte

definition SuperCapVoltage :: Sensor where "SuperCapVoltage = 2"
definition UVIndex :: Sensor where "UVIndex = 4"
definition RainRate :: Sensor where "RainRate = 5"
definition SolarRadiation :: Sensor where "SolarRadiation = 6"
definition Light :: Sensor where "Light = 7"
definition Temperature :: Sensor where "Temperature = 8"
definition WindGustSpeed :: Sensor where "WindGustSpeed = 9"
definition Humidity :: Sensor where "Humidity = 0xA"
definition Rain :: Sensor where "Rain = 0xE"

text \<open>
  \<^verbatim>\<open>Message\<close> embeds \<^verbatim>\<open>dsp.Packet\<close>. The parser's configured identifier and the
  message's \<^verbatim>\<open>ID\<close> are distinct fields of the source; the message's is \<open>MsgID\<close> here.
\<close>

record Message = Packet +
  MsgID :: byte
  Sensor :: Sensor
  WindSpeed :: byte
  WindDirection :: byte

text \<open>
  \<^verbatim>\<open>NewMessage\<close>. \<^verbatim>\<open>make([]byte, len(pkt.Data)-2)\<close> panics on a negative length;
  each of the reads \<^verbatim>\<open>m.Data[0]\<close>, \<^verbatim>\<open>m.Data[1]\<close>, \<^verbatim>\<open>m.Data[2]\<close> panics when
  out of range.
\<close>

definition NewMessage :: "Packet \<Rightarrow> panic + Message" where
  "NewMessage pkt =
     (if length (Data pkt) < 2 then Inl MakesliceLenOutOfRange
      else
        (let d = drop 2 (Data pkt) in
         case go_index d 0 of
           Inl e \<Rightarrow> Inl e
         | Inr d0 \<Rightarrow>
             (case go_index d 1 of
                Inl e \<Rightarrow> Inl e
              | Inr d1 \<Rightarrow>
                  (case go_index d 2 of
                     Inl e \<Rightarrow> Inl e
                   | Inr d2 \<Rightarrow>
                       Inr \<lparr> Idx = Idx pkt, Data = d,
                             MsgID = d0 AND 0xF,
                             Sensor = drop_bit 4 d0,
                             WindSpeed = d1,
                             WindDirection = d2 \<rparr>))))"

text \<open>
  The verb \<^verbatim>\<open>%0X\<close> of \<^verbatim>\<open>fmt\<close> on a byte: upper-case hexadecimal digits without
  leading zeros (the flag pads only to a width, and none is given).
\<close>

definition hex_digit :: "byte \<Rightarrow> char" where
  "hex_digit d = ''0123456789ABCDEF'' ! unat (d AND 0xF)"

definition fmt_X :: "byte \<Rightarrow> string" where
  "fmt_X b = (if b < 16 then [hex_digit b] else [hex_digit (drop_bit 4 b), hex_digit b])"

definition Sensor_String :: "Sensor \<Rightarrow> string" where
  "Sensor_String s =
     (if s = SuperCapVoltage then ''SuperCap Voltage''
      else if s = UVIndex then ''UV Index''
      else if s = RainRate then ''Rain Rate''
      else if s = SolarRadiation then ''Solar Radiation''
      else if s = Light then ''Light''
      else if s = Temperature then ''Temperature''
      else if s = WindGustSpeed then ''Wind Gust Speed''
      else if s = Humidity then ''Humidity''
      else if s = Rain then ''Rain''
      else ''Unknown(0x'' @ fmt_X s @ '')'')"

section \<open>Parse\<close>

text \<open>
  Lines 151 to 159 of \<^verbatim>\<open>Parse\<close>: the mean of the tail, accumulated from the zero
  value and divided by the tail's length, and the frequency error derived from it.
\<close>

definition freqError_of :: "'f float64_ops \<Rightarrow> 'f list \<Rightarrow> go_int \<Rightarrow> go_int" where
  "freqError_of fl tail sampleRate =
     (let mean = foldl (f64_add fl) (f64_zero fl) tail;
          mean = f64_div fl mean (f64_of_int fl (word_of_nat (length tail)))
      in - f64_to_int fl
             (f64_add fl (f64_of_int fl 9600)
                (f64_div fl (f64_mul fl mean (f64_of_int fl sampleRate)) (f64_two_pi fl))))"

text \<open>
  Lines 161 to 165 of \<^verbatim>\<open>Parse\<close>: the tracker's update for the channel of the current
  hop index.
\<close>

definition update_tracker :: "'f Parser \<Rightarrow> go_int \<Rightarrow> panic + 'f Parser" where
  "update_tracker p freqError =
     (case go_index (hopPattern p) (hopIdx p) of
        Inl e \<Rightarrow> Inl e
      | Inr ch \<Rightarrow>
          (let p1 = p\<lparr>channelFreqErr := (channelFreqErr p)(ch \<mapsto> currentFreqErr p + freqError)\<rparr>;
               p2 = p1\<lparr>currentFreqErr := currentFreqErr p1 + freqError\<rparr>
           in Inr p2))"

text \<open>\<^verbatim>\<open>seen[s]\<close> on a \<^verbatim>\<open>map[string]bool\<close>: the zero value for a missing key.\<close>

definition seen_lookup :: "(byte list \<rightharpoonup> bool) \<Rightarrow> byte list \<Rightarrow> bool" where
  "seen_lookup seen s = (case seen s of Some b \<Rightarrow> b | None \<Rightarrow> False)"

text \<open>
  The state of the loop of \<^verbatim>\<open>Parse\<close>: the map \<^verbatim>\<open>seen\<close>, the messages so far and
  the parser. A panic ends the run; what the parser held at that moment is not returned.
\<close>

type_synonym 'f parse_state = "(byte list \<rightharpoonup> bool) \<times> Message list \<times> 'f Parser"

text \<open>
  One iteration of the loop; each \<^verbatim>\<open>continue\<close> returns the state reached so far.
  The source writes the reversed bytes into the packet's own payload array, so the
  caller's packets are left reversed; the model returns the messages and the parser.
\<close>

definition Parse_body :: "'f float64_ops \<Rightarrow> 'f parse_state \<Rightarrow> Packet \<Rightarrow> panic + 'f parse_state" where
  "Parse_body fl st pkt0 =
     (case st of (seen, msgs, p) \<Rightarrow>
        (let pkt = pkt0\<lparr>Data := map SwapBitOrder (Data pkt0)\<rparr>;
             s = Data pkt
         in if seen_lookup seen s then Inr (seen, msgs, p)
            else
              (let seen' = seen(s \<mapsto> True) in
               case go_slice_from (Data pkt) 2 of
                 Inl e \<Rightarrow> Inl e
               | Inr body \<Rightarrow>
                   if Checksum p body \<noteq> 0 then Inr (seen', msgs, p)
                   else
                     (let lower = Idx pkt + 8 * SymbolLength (Cfg p);
                          upper = Idx pkt + 24 * SymbolLength (Cfg p)
                      in case go_slice (Discriminated p) lower upper of
                           Inl e \<Rightarrow> Inl e
                         | Inr tail \<Rightarrow>
                             (let freqError = freqError_of fl tail (SampleRate (Cfg p)) in
                              case update_tracker p freqError of
                                Inl e \<Rightarrow> Inl e
                              | Inr p' \<Rightarrow>
                                  (case NewMessage pkt of
                                     Inl e \<Rightarrow> Inl e
                                   | Inr m \<Rightarrow> Inr (seen', msgs @ [m], p')))))))"

fun Parse_loop :: "'f float64_ops \<Rightarrow> 'f parse_state \<Rightarrow> Packet list \<Rightarrow> panic + 'f parse_state" where
  "Parse_loop fl st [] = Inr st"
| "Parse_loop fl st (pkt # pkts) =
     (case Parse_body fl st pkt of
        Inl e \<Rightarrow> Inl e
      | Inr st' \<Rightarrow> Parse_loop fl st' pkts)"

definition Parse :: "'f float64_ops \<Rightarrow> 'f Parser \<Rightarrow> Packet list \<Rightarrow> panic + (Message list \<times> 'f Parser)" where
  "Parse fl p pkts =
     (case Parse_loop fl (Map.empty, [], p) pkts of
        Inl e \<Rightarrow> Inl e
      | Inr (seen, msgs, p') \<Rightarrow> Inr (msgs, p'))"

section \<open>Invariants of the hop state\<close>

text \<open>
  The tables as \<^verbatim>\<open>NewParser\<close> fills them; no function of the file writes them
  afterwards.
\<close>

definition constructed :: "'f Parser \<Rightarrow> bool" where
  "constructed p \<longleftrightarrow>
     channelCount p = 9 \<and>
     channels p = [867500000, 867625000, 867750000, 867875000,
                   868000000, 868125000, 868250000, 868375000, 868500000] \<and>
     hopPattern p = [0, 4, 8, 1, 5, 3, 6, 2, 7]"

text \<open>The hop index is in \<open>[0, channelCount)\<close>.\<close>

definition hopIdx_in_range :: "'f Parser \<Rightarrow> bool" where
  "hopIdx_in_range p \<longleftrightarrow> 0 \<le>s hopIdx p \<and> hopIdx p <s channelCount p"

section \<open>The specification's account of a batch\<close>

text \<open>
  The payload as \<^verbatim>\<open>Parse\<close> sees it after its first inner loop: every byte with its
  bit order reversed. It is the key of \<^verbatim>\<open>seen\<close>.
\<close>

definition reversed :: "Packet \<Rightarrow> byte list" where
  "reversed pkt = map SwapBitOrder (Data pkt)"

text \<open>
  What the specification says of a batch, to compare \<^verbatim>\<open>Parse\<close> with. A packet is
  accepted when its reversed bytes differ from those of every earlier packet of the batch
  (\<open>prev\<close> holds them) and the checksum of the reversed bytes without the first two is
  zero.
\<close>

fun spec_accepted :: "(byte list \<Rightarrow> uint16) \<Rightarrow> byte list list \<Rightarrow> Packet list \<Rightarrow> Packet list" where
  "spec_accepted ck prev [] = []"
| "spec_accepted ck prev (pkt # pkts) =
     (if reversed pkt \<notin> set prev \<and> ck (drop 2 (reversed pkt)) = 0 then [pkt] else [])
       @ spec_accepted ck (reversed pkt # prev) pkts"

text \<open>The message of a packet is built from the packet with its payload reversed.\<close>

definition decoded :: "Packet \<Rightarrow> panic + Message" where
  "decoded pkt = NewMessage (pkt\<lparr>Data := reversed pkt\<rparr>)"

text \<open>
  The message that the specification describes for a payload without its two prefix
  bytes, captured at sample index \<open>idx\<close>.
\<close>

definition spec_message :: "go_int \<Rightarrow> byte list \<Rightarrow> Message" where
  "spec_message idx payload =
     \<lparr> Idx = idx, Data = payload,
       MsgID = payload ! 0 AND 0xF,
       Sensor = drop_bit 4 (payload ! 0),
       WindSpeed = payload ! 1,
       WindDirection = payload ! 2 \<rparr>"

text \<open>
  The window of the trace that \<^verbatim>\<open>Parse\<close> reads for a packet, from 8 to 24 symbol
  lengths after the packet's index, lies inside the trace.
\<close>

definition window_in_trace :: "'f Parser \<Rightarrow> Packet \<Rightarrow> bool" where
  "window_in_trace p pkt \<longleftrightarrow>
     (let lower = Idx pkt + 8 * SymbolLength (Cfg p);
          upper = Idx pkt + 24 * SymbolLength (Cfg p)
      in 0 \<le>s lower \<and> lower \<le>s upper \<and> nat (sint upper) \<le> length (Discriminated p))"

text \<open>
  The error that \<^verbatim>\<open>Parse\<close> measures for a packet: the frequency error of the window
  of the trace from 8 to 24 symbol lengths after the packet's index.
\<close>

definition measured_error :: "'f float64_ops \<Rightarrow> 'f Parser \<Rightarrow> Packet \<Rightarrow> panic + go_int" where
  "measured_error fl p pkt =
     (case go_slice (Discriminated p) (Idx pkt + 8 * SymbolLength (Cfg p))
             (Idx pkt + 24 * SymbolLength (Cfg p)) of
        Inl e \<Rightarrow> Inl e
      | Inr tail \<Rightarrow> Inr (freqError_of fl tail (SampleRate (Cfg p))))"

text \<open>
  What the specification says of the tracker over a batch: one update per accepted
  packet, in order, each with the error measured for that packet.
\<close>

fun spec_tracker :: "'f float64_ops \<Rightarrow> 'f Parser \<Rightarrow> Packet list \<Rightarrow> panic + 'f Parser" where
  "spec_tracker fl p [] = Inr p"
| "spec_tracker fl p (pkt # pkts) =
     (case measured_error fl p pkt of
        Inl e \<Rightarrow> Inl e
      | Inr delta \<Rightarrow>
          (case update_tracker p delta of
             Inl e \<Rightarrow> Inl e
           | Inr p' \<Rightarrow> spec_tracker fl p' pkts))"

section \<open>A concrete parser\<close>

text \<open>
  An instance to run the model on: exact integer arithmetic in place of the samples'
  arithmetic, a checksum that folds the bytes with exclusive or, and a parser at pattern
  index 6 whose trace holds 24 samples. The example packet carries, once reversed, the
  identifier 3, the sensor code 8, the wind speed 12 and the wind direction 200, and its
  checksum is zero.
\<close>

definition integer_ops :: "int float64_ops" where
  "integer_ops =
     \<lparr> f64_zero = 0, f64_add = (+), f64_mul = (*), f64_div = (div),
       f64_of_int = sint, f64_to_int = word_of_int, f64_two_pi = 6 \<rparr>"

definition xor_checksum :: "byte list \<Rightarrow> uint16" where
  "xor_checksum bs = foldl (\<lambda>acc b. acc XOR ucast b) 0 bs"

definition example_collaborators :: "int collaborators" where
  "example_collaborators =
     \<lparr> dsp_NewPacketConfig = (\<lambda>bitRate symbolLength preambleSymbols packetSymbols preamble.
          \<lparr>SymbolLength = symbolLength, SampleRate = bitRate * symbolLength\<rparr>),
       dsp_NewDemodulator = (\<lambda>cfg. []),
       crc_NewCRC = (\<lambda>name init poly residue. xor_checksum) \<rparr>"

definition example_parser :: "int Parser" where
  "example_parser =
     \<lparr> Discriminated = [- 9550, - 9550, - 9550, - 9550, - 9550, - 9550, - 9550, - 9550,
                         - 9550, - 9550, - 9550, - 9550, - 9550, - 9550, - 9550, - 9550,
                         - 9550, - 9550, - 9550, - 9550, - 9550, - 9550, - 9550, - 9550],
       Checksum = xor_checksum,
       Cfg = \<lparr>SymbolLength = 1, SampleRate = 6\<rparr>,
       ID = 2,
       DwellTime = 128000000,
       channelCount = 9,
       channels = [867500000, 867625000, 867750000, 867875000,
                   868000000, 868125000, 868250000, 868375000, 868500000],
       hopIdx = 6,
       hopPattern = [0, 4, 8, 1, 5, 3, 6, 2, 7],
       currentFreqErr = 120,
       channelFreqErr = [3 \<mapsto> 75] \<rparr>"

definition example_packet :: Packet where
  "example_packet = \<lparr>Idx = 0, Data = [0xCB, 0x89, 0xC1, 0x30, 0x13, 0xE2]\<rparr>"

text \<open>The example packet with one bit of its last byte flipped.\<close>

definition example_noise :: Packet where
  "example_noise = \<lparr>Idx = 100, Data = [0xCB, 0x89, 0xC1, 0x30, 0x13, 0xE3]\<rparr>"

text \<open>A packet of four bytes whose checksum is zero.\<close>

definition example_short :: Packet where
  "example_short = \<lparr>Idx = 0, Data = [0xCB, 0x89, 0x00, 0x00]\<rparr>"

text \<open>
  A second packet with another payload: once reversed, identifier 1, sensor code 5, wind
  speed 7, wind direction 32, and a checksum of zero.
\<close>

definition example_second :: Packet where
  "example_second = \<lparr>Idx = 0, Data = [0xCB, 0x89, 0x8A, 0xE0, 0x04, 0x6E]\<rparr>"

section \<open>Bit-order reversal is an involution\<close>

lemma byte_bit_cases:
  assumes "n < 8"
  obtains "n = 0" | "n = 1" | "n = 2" | "n = 3" | "n = 4" | "n = 5" | "n = 6" | "n = (7::nat)"
  using assms by arith

lemma byte_bit_high: "8 \<le> n \<Longrightarrow> \<not> bit (w :: byte) n"
  using bit_imp_le_length [of w n] by auto

lemma bit_mask_F0: "bit (0xF0 :: byte) n \<longleftrightarrow> n \<in> {4, 5, 6, 7}"
proof (cases "n < 8")
  case True
  then show ?thesis by (rule byte_bit_cases) simp_all
next
  case False
  then show ?thesis by (auto simp: byte_bit_high)
qed

lemma bit_mask_0F: "bit (0x0F :: byte) n \<longleftrightarrow> n \<in> {0, 1, 2, 3}"
proof (cases "n < 8")
  case True
  then show ?thesis by (rule byte_bit_cases) simp_all
next
  case False
  then show ?thesis by (auto simp: byte_bit_high)
qed

lemma bit_mask_CC: "bit (0xCC :: byte) n \<longleftrightarrow> n \<in> {2, 3, 6, 7}"
proof (cases "n < 8")
  case True
  then show ?thesis by (rule byte_bit_cases) simp_all
next
  case False
  then show ?thesis by (auto simp: byte_bit_high)
qed

lemma bit_mask_33: "bit (0x33 :: byte) n \<longleftrightarrow> n \<in> {0, 1, 4, 5}"
proof (cases "n < 8")
  case True
  then show ?thesis by (rule byte_bit_cases) simp_all
next
  case False
  then show ?thesis by (auto simp: byte_bit_high)
qed

lemma bit_mask_AA: "bit (0xAA :: byte) n \<longleftrightarrow> n \<in> {1, 3, 5, 7}"
proof (cases "n < 8")
  case True
  then show ?thesis by (rule byte_bit_cases) simp_all
next
  case False
  then show ?thesis by (auto simp: byte_bit_high)
qed

lemma bit_mask_55: "bit (0x55 :: byte) n \<longleftrightarrow> n \<in> {0, 2, 4, 6}"
proof (cases "n < 8")
  case True
  then show ?thesis by (rule byte_bit_cases) simp_all
next
  case False
  then show ?thesis by (auto simp: byte_bit_high)
qed

lemma bit_masked_swap:
  fixes b hi lo :: byte
  shows "bit (drop_bit k (b AND hi) OR push_bit k (b AND lo)) n \<longleftrightarrow>
    (bit b (k + n) \<and> bit hi (k + n)) \<or> (k \<le> n \<and> n < 8 \<and> bit b (n - k) \<and> bit lo (n - k))"
  by (auto simp add: bit_or_iff bit_and_iff bit_drop_bit_eq bit_push_bit_iff possible_bit_def)

lemma bit_SwapBitOrder:
  assumes "n < 8"
  shows "bit (SwapBitOrder b) n = bit b (7 - n)"
  unfolding SwapBitOrder_def Let_def bit_masked_swap
    bit_mask_F0 bit_mask_0F bit_mask_CC bit_mask_33 bit_mask_AA bit_mask_55
  using assms by (rule byte_bit_cases) simp_all

text \<open>
  C8. Reversing the bit order twice gives the byte back; \<open>0b10110000\<close> is mapped to
  \<open>0b00001101\<close>; bit \<open>n\<close> of the result is bit \<open>7 - n\<close> of the argument.
\<close>

theorem SwapBitOrder_involution:
  "SwapBitOrder (SwapBitOrder b) = b \<and> SwapBitOrder 0xB0 = 0x0D
   \<and> (\<forall>n<8. bit (SwapBitOrder b) n = bit b (7 - n))"
proof (intro conjI)
  show "SwapBitOrder (SwapBitOrder b) = b"
  proof (rule bit_word_eqI)
    fix n
    assume "n < LENGTH(8)"
    then have "n < 8" and "7 - n < 8" by simp_all
    then show "bit (SwapBitOrder (SwapBitOrder b)) n = bit b n"
      by (simp add: bit_SwapBitOrder)
  qed
  show "SwapBitOrder 0xB0 = 0x0D"
    by (simp add: SwapBitOrder_def)
  show "\<forall>n<8. bit (SwapBitOrder b) n = bit b (7 - n)"
    by (simp add: bit_SwapBitOrder)
qed

theorem SwapBitOrder_involution_witness:
  "SwapBitOrder (SwapBitOrder 0x4B) = 0x4B \<and> SwapBitOrder 0x4B = 0xD2
   \<and> bit (SwapBitOrder 0x4B) 1 = bit (0x4B :: byte) 6"
proof -
  have r: "SwapBitOrder 0x4B = 0xD2"
    by (simp add: SwapBitOrder_def)
  from SwapBitOrder_involution [of "0x4B"]
  have "SwapBitOrder (SwapBitOrder 0x4B) = 0x4B"
    and "\<forall>n<8. bit (SwapBitOrder 0x4B) n = bit (0x4B :: byte) (7 - n)"
    by blast+
  then show ?thesis using r by simp
qed

section \<open>The hop sequencer\<close>

lemma small_index_cases:
  fixes i :: go_int
  assumes "0 \<le>s i" "i <s 9"
  obtains "i = 0" | "i = 1" | "i = 2" | "i = 3" | "i = 4" | "i = 5" | "i = 6" | "i = 7" | "i = 8"
proof -
  from assms have "0 \<le> sint i" "sint i < 9"
    by (simp_all add: word_sle_eq word_sless_alt)
  then consider "sint i = 0" | "sint i = 1" | "sint i = 2" | "sint i = 3" | "sint i = 4"
    | "sint i = 5" | "sint i = 6" | "sint i = 7" | "sint i = 8"
    by arith
  then show thesis
  proof cases
    case 1 then have "word_of_int (sint i) = (0 :: go_int)" by simp
    then show thesis using that(1) by simp
  next
    case 2 then have "word_of_int (sint i) = (1 :: go_int)" by simp
    then show thesis using that(2) by simp
  next
    case 3 then have "word_of_int (sint i) = (2 :: go_int)" by simp
    then show thesis using that(3) by simp
  next
    case 4 then have "word_of_int (sint i) = (3 :: go_int)" by simp
    then show thesis using that(4) by simp
  next
    case 5 then have "word_of_int (sint i) = (4 :: go_int)" by simp
    then show thesis using that(5) by simp
  next
    case 6 then have "word_of_int (sint i) = (5 :: go_int)" by simp
    then show thesis using that(6) by simp
  next
    case 7 then have "word_of_int (sint i) = (6 :: go_int)" by simp
    then show thesis using that(7) by simp
  next
    case 8 then have "word_of_int (sint i) = (7 :: go_int)" by simp
    then show thesis using that(8) by simp
  next
    case 9 then have "word_of_int (sint i) = (8 :: go_int)" by simp
    then show thesis using that(9) by simp
  qed
qed

lemma NextHop_step:
  fixes p :: "'f Parser"
  assumes "constructed p" "hopIdx_in_range p"
  shows "\<exists>h p'. NextHop p = Inr (h, p') \<and> constructed p' \<and> hopIdx_in_range p'
     \<and> unat (hopIdx p') = (unat (hopIdx p) + 1) mod 9
     \<and> hopIdx p' = word_of_nat ((unat (hopIdx p) + 1) mod 9)
     \<and> ChannelIdx h = [0, 4, 8, 1, 5, 3, 6, 2, 7] ! unat (hopIdx p')
     \<and> ChannelFreq h = channels p ! unat (ChannelIdx h)
     \<and> FreqError h = currentFreqErr p'
     \<and> hop (p\<lparr>hopIdx := hopIdx p'\<rparr>) = Inr (h, p')"
proof -
  from assms have t: "channelCount p = 9" "hopPattern p = [0, 4, 8, 1, 5, 3, 6, 2, 7]"
    "channels p = [867500000, 867625000, 867750000, 867875000,
                   868000000, 868125000, 868250000, 868375000, 868500000]"
    and r: "0 \<le>s hopIdx p" "hopIdx p <s 9"
    by (simp_all add: constructed_def hopIdx_in_range_def)
  from r show ?thesis
    by (rule small_index_cases)
       (simp_all add: NextHop_def go_rem_def smod_int_alt_def hop_def go_index_def t
          constructed_def hopIdx_in_range_def word_sle_eq word_sless_alt Let_def
          split: option.split)
qed

lemma NextHops_visits:
  fixes p :: "'f Parser"
  assumes "constructed p" "hopIdx_in_range p"
  shows "\<exists>hs p'. NextHops n p = Inr (hs, p') \<and> constructed p' \<and> hopIdx_in_range p'
     \<and> map ChannelIdx hs =
         map (\<lambda>k. [0, 4, 8, 1, 5, 3, 6, 2, 7] ! ((unat (hopIdx p) + k) mod 9)) [1..<Suc n]
     \<and> unat (hopIdx p') = (unat (hopIdx p) + n) mod 9
     \<and> hopIdx p' = word_of_nat ((unat (hopIdx p) + n) mod 9)"
  using assms
proof (induction n arbitrary: p)
  case 0
  from \<open>hopIdx_in_range p\<close> \<open>constructed p\<close> have "0 \<le>s hopIdx p" "hopIdx p <s 9"
    by (simp_all add: constructed_def hopIdx_in_range_def)
  then have "unat (hopIdx p) mod 9 = unat (hopIdx p) \<and> word_of_nat (unat (hopIdx p) mod 9) = hopIdx p"
    by (rule small_index_cases) simp_all
  with 0 show ?case by simp
next
  case (Suc n)
  let ?pat = "[0, 4, 8, 1, 5, 3, 6, 2, 7] :: go_int list"
  from NextHop_step [OF Suc.prems] obtain h p1 where
    h: "NextHop p = Inr (h, p1)" "constructed p1" "hopIdx_in_range p1"
       "unat (hopIdx p1) = (unat (hopIdx p) + 1) mod 9"
       "ChannelIdx h = ?pat ! unat (hopIdx p1)"
    by blast
  from Suc.IH [OF h(2,3)] obtain hs p2 where
    hs: "NextHops n p1 = Inr (hs, p2)" "constructed p2" "hopIdx_in_range p2"
        "map ChannelIdx hs = map (\<lambda>k. ?pat ! ((unat (hopIdx p1) + k) mod 9)) [1..<Suc n]"
        "unat (hopIdx p2) = (unat (hopIdx p1) + n) mod 9"
        "hopIdx p2 = word_of_nat ((unat (hopIdx p1) + n) mod 9)"
    by blast
  have shift: "((unat (hopIdx p) + 1) mod 9 + k) mod 9 = (unat (hopIdx p) + Suc k) mod 9" for k
    by (simp add: mod_add_left_eq)
  have shift_map: "map (\<lambda>k. ?pat ! (((unat (hopIdx p) + 1) mod 9 + k) mod 9)) ks
      = map ((\<lambda>k. ?pat ! ((unat (hopIdx p) + k) mod 9)) \<circ> Suc) ks" for ks
    unfolding shift by (simp only: comp_def)
  have upt: "[1..<Suc (Suc n)] = 1 # map Suc [1..<Suc n]"
    by (simp add: upt_conv_Cons map_Suc_upt del: upt_Suc)
  have "map ChannelIdx (h # hs) =
      map (\<lambda>k. ?pat ! ((unat (hopIdx p) + k) mod 9)) [1..<Suc (Suc n)]"
    unfolding upt list.map(2) hs(4) h(4,5) shift_map map_map ..
  moreover have "NextHops (Suc n) p = Inr (h # hs, p2)"
    by (simp add: h(1) hs(1))
  moreover have "unat (hopIdx p2) = (unat (hopIdx p) + Suc n) mod 9"
    by (simp only: hs(5) h(4) shift)
  moreover have "hopIdx p2 = word_of_nat ((unat (hopIdx p) + Suc n) mod 9)"
    by (simp only: hs(6) h(4) shift)
  ultimately show ?case using hs(2,3) by blast
qed

lemma rotate_pattern:
  assumes "i < 9"
  shows "map (\<lambda>k. [0, 4, 8, 1, 5, 3, 6, 2, 7 :: go_int] ! ((i + k) mod 9)) [1..<Suc 9]
     = rotate (Suc i) [0, 4, 8, 1, 5, 3, 6, 2, 7]"
proof -
  have u: "[1..<Suc 9] = [1, 2, 3, 4, 5, 6, 7, 8, 9]"
    by (simp add: upt_rec)
  from assms consider "i = 0" | "i = 1" | "i = 2" | "i = 3" | "i = 4" | "i = 5" | "i = 6"
    | "i = 7" | "i = 8"
    by arith
  then show ?thesis
    unfolding u rotate_drop_take by cases simp_all
qed

lemma index_mod_9:
  fixes i :: go_int
  assumes "0 \<le>s i" "i <s 9"
  shows "unat i < 9" and "word_of_nat (unat i mod 9) = i"
  using assms by (rule small_index_cases; simp)+

lemma hop_in_range:
  fixes p :: "'f Parser"
  assumes "constructed p" "hopIdx_in_range p"
  shows "\<exists>h p'. hop p = Inr (h, p') \<and> constructed p' \<and> hopIdx_in_range p' \<and> hopIdx p' = hopIdx p"
proof -
  from assms have t: "channelCount p = 9" "hopPattern p = [0, 4, 8, 1, 5, 3, 6, 2, 7]"
    "channels p = [867500000, 867625000, 867750000, 867875000,
                   868000000, 868125000, 868250000, 868375000, 868500000]"
    and r: "0 \<le>s hopIdx p" "hopIdx p <s 9"
    by (simp_all add: constructed_def hopIdx_in_range_def)
  from r show ?thesis
    by (rule small_index_cases)
       (simp_all add: hop_def go_index_def t constructed_def hopIdx_in_range_def
          word_sle_eq word_sless_alt Let_def split: option.split)
qed

lemma rand_Intn_9: "\<exists>i. rand_Intn u 9 = Inr i \<and> 0 \<le>s i \<and> i <s 9"
proof -
  define k where "k = u mod 9"
  then have "k < 9" by simp
  then consider "k = 0" | "k = 1" | "k = 2" | "k = 3" | "k = 4"
    | "k = 5" | "k = 6" | "k = 7" | "k = 8"
    by arith
  then have "0 \<le>s (word_of_nat k :: go_int) \<and> (word_of_nat k :: go_int) <s 9"
    by cases (simp_all add: word_sle_eq word_sless_alt)
  moreover have "rand_Intn u 9 = Inr (word_of_nat k)"
    by (simp add: rand_Intn_def k_def word_sle_eq)
  ultimately show ?thesis by blast
qed

lemma RandHop_in_range:
  fixes p :: "'f Parser"
  assumes "constructed p"
  shows "\<exists>h p'. RandHop u p = Inr (h, p') \<and> constructed p' \<and> hopIdx_in_range p'"
proof -
  from rand_Intn_9 obtain i where i: "rand_Intn u 9 = Inr i" "0 \<le>s i" "i <s 9"
    by blast
  let ?q = "p\<lparr>hopIdx := i\<rparr>"
  from assms i have "constructed ?q" "hopIdx_in_range ?q"
    by (simp_all add: constructed_def hopIdx_in_range_def)
  from hop_in_range [OF this] obtain h p' where
    "hop ?q = Inr (h, p')" "constructed p'" "hopIdx_in_range p'"
    by blast
  moreover from assms have "channelCount p = 9"
    by (simp add: constructed_def)
  ultimately show ?thesis
    by (simp add: RandHop_def i(1))
qed

lemma NewParser_constructed:
  "\<exists>p. NewParser ext u symbolLength ident = Inr p \<and> constructed p \<and> hopIdx_in_range p"
proof -
  from rand_Intn_9 obtain i where i: "rand_Intn u 9 = Inr i" "0 \<le>s i" "i <s 9"
    by blast
  then show ?thesis
    by (simp add: NewParser_def Let_def constructed_def hopIdx_in_range_def)
qed

lemma update_tracker_frame:
  "update_tracker p d = Inr p' \<Longrightarrow>
   p' = p\<lparr>currentFreqErr := currentFreqErr p', channelFreqErr := channelFreqErr p'\<rparr>"
  by (auto simp: update_tracker_def Let_def split: sum.splits)

lemma Parse_body_frame:
  assumes "Parse_body fl (seen, msgs, p) pkt = Inr (seen', msgs', p')"
  shows "p' = p\<lparr>currentFreqErr := currentFreqErr p', channelFreqErr := channelFreqErr p'\<rparr>"
  using assms unfolding Parse_body_def Let_def
  by (auto split: if_splits sum.splits dest: update_tracker_frame)

lemma Parse_loop_frame:
  "Parse_loop fl (seen, msgs, p) pkts = Inr (seen', msgs', p') \<Longrightarrow>
   p' = p\<lparr>currentFreqErr := currentFreqErr p', channelFreqErr := channelFreqErr p'\<rparr>"
proof (induction pkts arbitrary: seen msgs p)
  case Nil
  then show ?case by simp
next
  case (Cons pkt pkts)
  from Cons.prems obtain seen1 msgs1 p1 where
    b: "Parse_body fl (seen, msgs, p) pkt = Inr (seen1, msgs1, p1)"
    and l: "Parse_loop fl (seen1, msgs1, p1) pkts = Inr (seen', msgs', p')"
    by (auto split: sum.splits)
  have "p' = p1\<lparr>currentFreqErr := currentFreqErr p', channelFreqErr := channelFreqErr p'\<rparr>"
    by (rule Cons.IH [OF l])
  also have "p1 = p\<lparr>currentFreqErr := currentFreqErr p1, channelFreqErr := channelFreqErr p1\<rparr>"
    by (rule Parse_body_frame [OF b])
  finally show ?case by simp
qed

lemma Parse_frame:
  assumes "Parse fl p pkts = Inr (msgs, p')"
  shows "p' = p\<lparr>currentFreqErr := currentFreqErr p', channelFreqErr := channelFreqErr p'\<rparr>"
proof -
  from assms obtain seen' where "Parse_loop fl (Map.empty, [], p) pkts = Inr (seen', msgs, p')"
    by (auto simp: Parse_def split: sum.splits)
  then show ?thesis by (rule Parse_loop_frame)
qed

lemma frame_invariants:
  assumes "p' = p\<lparr>currentFreqErr := a, channelFreqErr := b\<rparr>"
  shows "constructed p' = constructed p" and "hopIdx_in_range p' = hopIdx_in_range p"
    and "hopIdx p' = hopIdx p"
  using assms by (simp_all add: constructed_def hopIdx_in_range_def)

text \<open>
  C4. In a parser with the tables of \<^verbatim>\<open>NewParser\<close> and a hop index \<open>i\<close> in range,
  \<^verbatim>\<open>NextHop\<close> sets the index to \<open>(i + 1) mod 9\<close> and returns what \<^verbatim>\<open>hop\<close> returns
  for the new index. Nine successive calls visit the pattern rotated by \<open>i + 1\<close>, that is
  all nine entries once each in the pattern's cyclic order, and leave the index at \<open>i\<close>
  again. For every number of calls, call \<open>k\<close> visits entry \<open>(i + k) mod 9\<close>, so the
  sequence repeats with period nine.
\<close>

theorem NextHop_cycles_through_pattern:
  fixes p :: "'f Parser"
  assumes "constructed p" and "hopIdx_in_range p"
  shows "(\<exists>h p'. NextHop p = Inr (h, p')
            \<and> hopIdx p' = word_of_nat ((unat (hopIdx p) + 1) mod 9)
            \<and> hop (p\<lparr>hopIdx := hopIdx p'\<rparr>) = Inr (h, p'))
       \<and> (\<exists>hs p'. NextHops 9 p = Inr (hs, p')
            \<and> map ChannelIdx hs = rotate (Suc (unat (hopIdx p))) [0, 4, 8, 1, 5, 3, 6, 2, 7]
            \<and> distinct (map ChannelIdx hs)
            \<and> set (map ChannelIdx hs) = set (hopPattern p)
            \<and> hopIdx p' = hopIdx p)
       \<and> (\<exists>hs p'. NextHops n p = Inr (hs, p')
            \<and> map ChannelIdx hs =
                map (\<lambda>k. [0, 4, 8, 1, 5, 3, 6, 2, 7] ! ((unat (hopIdx p) + k) mod 9)) [1..<Suc n])"
proof (intro conjI)
  from NextHop_step [OF assms]
  show "\<exists>h p'. NextHop p = Inr (h, p')
            \<and> hopIdx p' = word_of_nat ((unat (hopIdx p) + 1) mod 9)
            \<and> hop (p\<lparr>hopIdx := hopIdx p'\<rparr>) = Inr (h, p')"
    by blast
next
  from assms have r: "0 \<le>s hopIdx p" "hopIdx p <s 9"
    and pat: "hopPattern p = [0, 4, 8, 1, 5, 3, 6, 2, 7]"
    by (simp_all add: constructed_def hopIdx_in_range_def)
  from NextHops_visits [OF assms, of 9] obtain hs p' where
    hs: "NextHops 9 p = Inr (hs, p')"
      "map ChannelIdx hs =
         map (\<lambda>k. [0, 4, 8, 1, 5, 3, 6, 2, 7] ! ((unat (hopIdx p) + k) mod 9)) [1..<Suc 9]"
      "hopIdx p' = word_of_nat ((unat (hopIdx p) + 9) mod 9)"
    by blast
  have rot: "map ChannelIdx hs = rotate (Suc (unat (hopIdx p))) [0, 4, 8, 1, 5, 3, 6, 2, 7]"
    unfolding hs(2) by (rule rotate_pattern) (rule index_mod_9 [OF r])
  have "distinct [0, 4, 8, 1, 5, 3, 6, 2, 7 :: go_int]"
    by simp
  then have "distinct (map ChannelIdx hs)"
    unfolding rot by (simp only: distinct_rotate)
  moreover have "set (map ChannelIdx hs) = set (hopPattern p)"
    unfolding rot pat by (simp only: set_rotate)
  moreover have "hopIdx p' = hopIdx p"
    unfolding hs(3) using index_mod_9(2) [OF r] by simp
  ultimately show "\<exists>hs p'. NextHops 9 p = Inr (hs, p')
            \<and> map ChannelIdx hs = rotate (Suc (unat (hopIdx p))) [0, 4, 8, 1, 5, 3, 6, 2, 7]
            \<and> distinct (map ChannelIdx hs)
            \<and> set (map ChannelIdx hs) = set (hopPattern p)
            \<and> hopIdx p' = hopIdx p"
    using hs(1) rot by blast
next
  from NextHops_visits [OF assms, of n]
  show "\<exists>hs p'. NextHops n p = Inr (hs, p')
            \<and> map ChannelIdx hs =
                map (\<lambda>k. [0, 4, 8, 1, 5, 3, 6, 2, 7] ! ((unat (hopIdx p) + k) mod 9)) [1..<Suc n]"
    by blast
qed

theorem NextHop_cycles_through_pattern_witness:
  "constructed example_parser \<and> hopIdx_in_range example_parser
   \<and> (\<exists>hs p'. NextHops 9 example_parser = Inr (hs, p')
          \<and> map ChannelIdx hs = [2, 7, 0, 4, 8, 1, 5, 3, 6] \<and> hopIdx p' = 6)"
proof -
  have c: "constructed example_parser"
    by (simp add: constructed_def example_parser_def)
  have r: "hopIdx_in_range example_parser"
    by (simp add: hopIdx_in_range_def example_parser_def word_sle_eq word_sless_alt)
  have i: "hopIdx example_parser = 6"
    by (simp add: example_parser_def)
  from NextHop_cycles_through_pattern [OF c r, of 0] obtain hs p' where
    "NextHops 9 example_parser = Inr (hs, p')"
    "map ChannelIdx hs = rotate (Suc (unat (hopIdx example_parser))) [0, 4, 8, 1, 5, 3, 6, 2, 7]"
    "hopIdx p' = hopIdx example_parser"
    by blast
  then have "NextHops 9 example_parser = Inr (hs, p')
      \<and> map ChannelIdx hs = [2, 7, 0, 4, 8, 1, 5, 3, 6] \<and> hopIdx p' = 6"
    by (simp add: i rotate_drop_take)
  then have e: "\<exists>hs p'. NextHops 9 example_parser = Inr (hs, p')
      \<and> map ChannelIdx hs = [2, 7, 0, 4, 8, 1, 5, 3, 6] \<and> hopIdx p' = 6"
    by (intro exI)
  show ?thesis
    by (rule conjI [OF c conjI [OF r e]])
qed

section \<open>The dwell time\<close>

lemma sint_of_int_64:
  assumes "- (2 ^ 63) \<le> k" "k < 2 ^ 63"
  shows "sint (word_of_int k :: 64 word) = k"
  using assms by (simp add: sint_sbintrunc' signed_take_bit_int_eq_self)

lemma dwell_word:
  fixes ident :: go_int
  shows "3000 * Microsecond + ident * 62500 * Microsecond
     = (word_of_int (1000 * (3000 + sint ident * 62500)) :: 64 word)"
  by (simp add: Microsecond_def algebra_simps)

lemma NewParser_DwellTime:
  "\<exists>p. NewParser ext u symbolLength ident = Inr p \<and> ID p = ident
     \<and> DwellTime p = 3000 * Microsecond + ident * 62500 * Microsecond"
proof -
  from rand_Intn_9 obtain i where "rand_Intn u 9 = Inr i"
    by blast
  then show ?thesis
    by (simp add: NewParser_def Let_def)
qed

text \<open>
  C9. \<^verbatim>\<open>NewParser\<close> always returns, and the dwell time it computes is
  \<open>3000 * Microsecond + id * 62500 * Microsecond\<close> in the arithmetic of
  \<^verbatim>\<open>time.Duration\<close>, whatever the collaborators, the random draw and the symbol length
  are. Read as an integer of nanoseconds it is \<open>1000 * (3000 + id * 62500)\<close> for every
  identifier for which that value fits the 64 bits of a duration.
\<close>

theorem NewParser_DwellTime_formula:
  "\<exists>p. NewParser ext u symbolLength ident = Inr p \<and> ID p = ident
     \<and> DwellTime p = 3000 * Microsecond + ident * 62500 * Microsecond
     \<and> (- 147573952589 \<le> sint ident \<and> sint ident \<le> 147573952589 \<longrightarrow>
          sint (DwellTime p) = 1000 * (3000 + sint ident * 62500))"
proof -
  from NewParser_DwellTime obtain p where
    p: "NewParser ext u symbolLength ident = Inr p" "ID p = ident"
       "DwellTime p = 3000 * Microsecond + ident * 62500 * Microsecond"
    by blast
  have "sint (DwellTime p) = 1000 * (3000 + sint ident * 62500)"
    if "- 147573952589 \<le> sint ident" "sint ident \<le> 147573952589"
  proof -
    from that have "- (2 ^ 63) \<le> 1000 * (3000 + sint ident * 62500)"
      and "1000 * (3000 + sint ident * 62500) < 2 ^ 63"
      by simp_all
    then show ?thesis
      unfolding p(3) dwell_word by (rule sint_of_int_64)
  qed
  with p show ?thesis by blast
qed

theorem NewParser_DwellTime_formula_witness:
  "\<exists>p. NewParser example_collaborators 13 14 2 = Inr p \<and> ID p = 2
     \<and> DwellTime p = 128000000 \<and> sint (DwellTime p) = 128000000"
proof -
  have b: "- 147573952589 \<le> sint (2 :: go_int) \<and> sint (2 :: go_int) \<le> 147573952589"
    by simp
  from NewParser_DwellTime_formula [of example_collaborators 13 14 2] obtain p where
    p: "NewParser example_collaborators 13 14 2 = Inr p" "ID p = 2"
      "DwellTime p = 3000 * Microsecond + 2 * 62500 * Microsecond"
      "- 147573952589 \<le> sint (2 :: go_int) \<and> sint (2 :: go_int) \<le> 147573952589 \<longrightarrow>
          sint (DwellTime p) = 1000 * (3000 + sint (2 :: go_int) * 62500)"
    by blast
  from p(4) b have "sint (DwellTime p) = 128000000"
    by simp
  moreover from p(3) have "DwellTime p = 128000000"
    by (simp add: Microsecond_def)
  ultimately have "NewParser example_collaborators 13 14 2 = Inr p \<and> ID p = 2
     \<and> DwellTime p = 128000000 \<and> sint (DwellTime p) = 128000000"
    using p(1,2) by (intro conjI)
  then show ?thesis by (rule exI)
qed

section \<open>The tracker's update and the example run\<close>

lemma hop_reports:
  fixes q :: "'f Parser"
  assumes "constructed q" "hopIdx_in_range q"
  shows "hop q = Inr (\<lparr>ChannelIdx = hopPattern q ! unat (hopIdx q),
                        ChannelFreq = channels q ! unat (hopPattern q ! unat (hopIdx q)),
                        FreqError = (case channelFreqErr q (hopPattern q ! unat (hopIdx q)) of
                                       Some v \<Rightarrow> v | None \<Rightarrow> currentFreqErr q)\<rparr>,
                      (case channelFreqErr q (hopPattern q ! unat (hopIdx q)) of
                         Some v \<Rightarrow> q\<lparr>currentFreqErr := v\<rparr> | None \<Rightarrow> q))"
proof -
  from assms have t: "channelCount q = 9" "hopPattern q = [0, 4, 8, 1, 5, 3, 6, 2, 7]"
    "channels q = [867500000, 867625000, 867750000, 867875000,
                   868000000, 868125000, 868250000, 868375000, 868500000]"
    and r: "0 \<le>s hopIdx q" "hopIdx q <s 9"
    by (simp_all add: constructed_def hopIdx_in_range_def)
  from r show ?thesis
    by (rule small_index_cases)
       (simp_all add: hop_def go_index_def t word_sle_eq Let_def split: option.split)
qed

lemma update_tracker_result:
  fixes p :: "'f Parser"
  assumes "constructed p" "hopIdx_in_range p"
  shows "update_tracker p delta =
     Inr (p\<lparr>channelFreqErr :=
              (channelFreqErr p)(hopPattern p ! unat (hopIdx p) \<mapsto> currentFreqErr p + delta),
            currentFreqErr := currentFreqErr p + delta\<rparr>)"
proof -
  from assms have t: "hopPattern p = [0, 4, 8, 1, 5, 3, 6, 2, 7]"
    and r: "0 \<le>s hopIdx p" "hopIdx p <s 9"
    by (simp_all add: constructed_def hopIdx_in_range_def)
  from r show ?thesis
    by (rule small_index_cases)
       (simp_all add: update_tracker_def go_index_def t word_sle_eq Let_def)
qed

lemma Parse_single_decoded:
  assumes "Parse fl p [pkt] = Inr (msgs, p')" "msgs \<noteq> []"
  shows "\<exists>tail. go_slice (Discriminated p) (Idx pkt + 8 * SymbolLength (Cfg p))
                 (Idx pkt + 24 * SymbolLength (Cfg p)) = Inr tail
     \<and> update_tracker p (freqError_of fl tail (SampleRate (Cfg p))) = Inr p'"
  using assms
  by (auto simp: Parse_def Parse_body_def Let_def split: sum.splits if_splits)

lemma example_swap:
  "map SwapBitOrder (Data example_packet) = [0xD3, 0x91, 0x83, 0x0C, 0xC8, 0x47]"
  by (simp add: example_packet_def SwapBitOrder_def)

lemma example_measure:
  "go_slice (Discriminated example_parser) (0 + 8 * 1) (0 + 24 * 1) =
     Inr [- 9550, - 9550, - 9550, - 9550, - 9550, - 9550, - 9550, - 9550,
          - 9550, - 9550, - 9550, - 9550, - 9550, - 9550, - 9550, - 9550]"
  "freqError_of integer_ops [- 9550, - 9550, - 9550, - 9550, - 9550, - 9550, - 9550, - 9550,
          - 9550, - 9550, - 9550, - 9550, - 9550, - 9550, - 9550, - 9550] 6 = - 50"
  by (simp_all add: go_slice_def example_parser_def word_sle_eq freqError_of_def integer_ops_def)

lemma example_Parse:
  "Parse integer_ops example_parser [example_packet] =
     Inr ([\<lparr>Idx = 0, Data = [0x83, 0x0C, 0xC8, 0x47], MsgID = 3, Sensor = 8,
            WindSpeed = 12, WindDirection = 200\<rparr>],
          example_parser\<lparr>channelFreqErr := (channelFreqErr example_parser)(6 \<mapsto> 70),
                           currentFreqErr := 70\<rparr>)"
proof -
  have c: "constructed example_parser"
    by (simp add: constructed_def example_parser_def)
  have r: "hopIdx_in_range example_parser"
    by (simp add: hopIdx_in_range_def example_parser_def word_sle_eq word_sless_alt)
  have f: "Cfg example_parser = \<lparr>SymbolLength = 1, SampleRate = 6\<rparr>"
    "Checksum example_parser = xor_checksum" "hopIdx example_parser = 6"
    "hopPattern example_parser = [0, 4, 8, 1, 5, 3, 6, 2, 7]" "currentFreqErr example_parser = 120"
    by (simp_all add: example_parser_def)
  have i: "Idx example_packet = 0"
    by (simp add: example_packet_def)
  have k: "xor_checksum [0x83, 0x0C, 0xC8, 0x47] = 0"
    by (simp add: xor_checksum_def)
  have m: "NewMessage (example_packet\<lparr>Data := [0xD3, 0x91, 0x83, 0x0C, 0xC8, 0x47]\<rparr>) =
    Inr \<lparr>Idx = 0, Data = [0x83, 0x0C, 0xC8, 0x47], MsgID = 3, Sensor = 8,
            WindSpeed = 12, WindDirection = 200\<rparr>"
    by (simp add: NewMessage_def go_index_def word_sle_eq i)
  show ?thesis
    by (simp add: Parse_def Parse_body_def seen_lookup_def go_slice_from_def example_swap
        f i k m example_measure [simplified] update_tracker_result [OF c r])
qed

section \<open>The hop index stays in range\<close>

text \<open>
  C7. The hop index is in \<open>[0, channelCount)\<close> with \<open>channelCount = 9\<close>: after
  \<^verbatim>\<open>NewParser\<close>, which always returns; after \<^verbatim>\<open>NextHop\<close> and \<^verbatim>\<open>hop\<close> from a state
  where it holds; after \<^verbatim>\<open>RandHop\<close> from any state with the constructor's tables; and
  after \<^verbatim>\<open>Parse\<close>, which leaves the index as it was.
\<close>

theorem hopIdx_stays_in_range:
  fixes p :: "'f Parser" and ext :: "'f collaborators"
  shows "(\<exists>p0. NewParser ext u symbolLength ident = Inr p0 \<and> constructed p0 \<and> hopIdx_in_range p0)
       \<and> (constructed p \<and> hopIdx_in_range p \<longrightarrow>
            (\<exists>h p'. NextHop p = Inr (h, p') \<and> constructed p' \<and> hopIdx_in_range p'))
       \<and> (constructed p \<longrightarrow>
            (\<exists>h p'. RandHop u p = Inr (h, p') \<and> constructed p' \<and> hopIdx_in_range p'))
       \<and> (constructed p \<and> hopIdx_in_range p \<longrightarrow>
            (\<exists>h p'. hop p = Inr (h, p') \<and> constructed p' \<and> hopIdx_in_range p'))
       \<and> (\<forall>msgs p'. constructed p \<and> hopIdx_in_range p \<and> Parse fl p pkts = Inr (msgs, p') \<longrightarrow>
            constructed p' \<and> hopIdx_in_range p' \<and> hopIdx p' = hopIdx p)
       \<and> (constructed p \<and> hopIdx_in_range p \<longrightarrow> unat (hopIdx p) < 9)"
proof -
  have new: "\<exists>p0. NewParser ext u symbolLength ident = Inr p0 \<and> constructed p0 \<and> hopIdx_in_range p0"
    by (rule NewParser_constructed)
  have nxt: "\<exists>h p'. NextHop p = Inr (h, p') \<and> constructed p' \<and> hopIdx_in_range p'"
    if "constructed p" "hopIdx_in_range p"
    using NextHop_step [OF that] by blast
  have rnd: "\<exists>h p'. RandHop u p = Inr (h, p') \<and> constructed p' \<and> hopIdx_in_range p'"
    if "constructed p"
    using that by (rule RandHop_in_range)
  have hp: "\<exists>h p'. hop p = Inr (h, p') \<and> constructed p' \<and> hopIdx_in_range p'"
    if "constructed p" "hopIdx_in_range p"
    using hop_in_range [OF that] by blast
  have prs: "constructed p' \<and> hopIdx_in_range p' \<and> hopIdx p' = hopIdx p"
    if "constructed p" "hopIdx_in_range p" "Parse fl p pkts = Inr (msgs, p')" for msgs p'
    using frame_invariants [OF Parse_frame [OF that(3)]] that(1,2) by simp
  have bnd: "unat (hopIdx p) < 9" if "constructed p" "hopIdx_in_range p"
  proof -
    from that have "0 \<le>s hopIdx p" "hopIdx p <s 9"
      by (simp_all add: constructed_def hopIdx_in_range_def)
    then show ?thesis by (rule index_mod_9)
  qed
  have c2: "constructed p \<and> hopIdx_in_range p \<longrightarrow>
            (\<exists>h p'. NextHop p = Inr (h, p') \<and> constructed p' \<and> hopIdx_in_range p')"
    using nxt by (intro impI) (elim conjE)
  have c3: "constructed p \<longrightarrow>
            (\<exists>h p'. RandHop u p = Inr (h, p') \<and> constructed p' \<and> hopIdx_in_range p')"
    using rnd by (intro impI)
  have c4: "constructed p \<and> hopIdx_in_range p \<longrightarrow>
            (\<exists>h p'. hop p = Inr (h, p') \<and> constructed p' \<and> hopIdx_in_range p')"
    using hp by (intro impI) (elim conjE)
  have c5: "\<forall>msgs p'. constructed p \<and> hopIdx_in_range p \<and> Parse fl p pkts = Inr (msgs, p') \<longrightarrow>
            constructed p' \<and> hopIdx_in_range p' \<and> hopIdx p' = hopIdx p"
    using prs by (intro allI impI) (elim conjE)
  have c6: "constructed p \<and> hopIdx_in_range p \<longrightarrow> unat (hopIdx p) < 9"
    using bnd by (intro impI) (elim conjE)
  show ?thesis
    by (rule conjI [OF new conjI [OF c2 conjI [OF c3 conjI [OF c4 conjI [OF c5 c6]]]]])
qed

theorem hopIdx_stays_in_range_witness:
  "constructed example_parser \<and> hopIdx_in_range example_parser
   \<and> (\<exists>p0. NewParser example_collaborators 13 14 2 = Inr p0 \<and> constructed p0 \<and> hopIdx_in_range p0)
   \<and> (\<exists>h p'. NextHop example_parser = Inr (h, p') \<and> constructed p' \<and> hopIdx_in_range p')
   \<and> (\<exists>h p'. RandHop 13 example_parser = Inr (h, p') \<and> constructed p' \<and> hopIdx_in_range p')
   \<and> (\<exists>h p'. hop example_parser = Inr (h, p') \<and> constructed p' \<and> hopIdx_in_range p')
   \<and> (\<exists>msgs p'. Parse integer_ops example_parser [example_packet] = Inr (msgs, p')
          \<and> constructed p' \<and> hopIdx_in_range p' \<and> hopIdx p' = hopIdx example_parser)
   \<and> unat (hopIdx example_parser) < 9"
proof -
  have c: "constructed example_parser"
    by (simp add: constructed_def example_parser_def)
  have r: "hopIdx_in_range example_parser"
    by (simp add: hopIdx_in_range_def example_parser_def word_sle_eq word_sless_alt)
  note t = hopIdx_stays_in_range [of example_collaborators 13 14 2 example_parser integer_ops
      "[example_packet]"]
  note cr = conjI [OF c r]
  note t1 = t [THEN conjunct1]
  note t2 = t [THEN conjunct2, THEN conjunct1, THEN mp, OF cr]
  note t3 = t [THEN conjunct2, THEN conjunct2, THEN conjunct1, THEN mp, OF c]
  note t4 = t [THEN conjunct2, THEN conjunct2, THEN conjunct2, THEN conjunct1, THEN mp, OF cr]
  note t6 = t [THEN conjunct2, THEN conjunct2, THEN conjunct2, THEN conjunct2, THEN conjunct2,
    THEN mp, OF cr]
  note t5 = t [THEN conjunct2, THEN conjunct2, THEN conjunct2, THEN conjunct2, THEN conjunct1,
    THEN spec, THEN spec, THEN mp, OF conjI [OF c conjI [OF r example_Parse]]]
  have t5': "\<exists>msgs p'. Parse integer_ops example_parser [example_packet] = Inr (msgs, p')
          \<and> constructed p' \<and> hopIdx_in_range p' \<and> hopIdx p' = hopIdx example_parser"
    by (intro exI conjI) (rule example_Parse, (rule t5 [THEN conjunct1] t5 [THEN conjunct2, THEN conjunct1]
          t5 [THEN conjunct2, THEN conjunct2])+)
  show ?thesis
    by (rule conjI [OF c conjI [OF r conjI [OF t1 conjI [OF t2 conjI [OF t3 conjI [OF t4
          conjI [OF t5' t6]]]]]]])
qed

section \<open>Parse: the loop and its duplicates\<close>

lemma Parse_loop_append:
  "Parse_loop fl st (xs @ ys) =
     (case Parse_loop fl st xs of Inl e \<Rightarrow> Inl e | Inr st' \<Rightarrow> Parse_loop fl st' ys)"
  by (induction xs arbitrary: st) (simp_all split: sum.splits)

lemma Parse_body_duplicate:
  "seen_lookup seen (reversed pkt) \<Longrightarrow> Parse_body fl (seen, msgs, p) pkt = Inr (seen, msgs, p)"
  by (simp add: Parse_body_def reversed_def)

lemma Parse_body_short:
  "\<not> seen_lookup seen (reversed pkt) \<Longrightarrow> length (Data pkt) < 2 \<Longrightarrow>
   Parse_body fl (seen, msgs, p) pkt = Inl SliceBoundsOutOfRange"
  by (simp add: Parse_body_def reversed_def go_slice_from_def)

lemma Parse_body_bad_checksum:
  "\<not> seen_lookup seen (reversed pkt) \<Longrightarrow> 2 \<le> length (Data pkt) \<Longrightarrow>
   Checksum p (drop 2 (reversed pkt)) \<noteq> 0 \<Longrightarrow>
   Parse_body fl (seen, msgs, p) pkt = Inr (seen(reversed pkt \<mapsto> True), msgs, p)"
  by (simp add: Parse_body_def reversed_def go_slice_from_def)

lemma Parse_body_good_checksum:
  "\<not> seen_lookup seen (reversed pkt) \<Longrightarrow> 2 \<le> length (Data pkt) \<Longrightarrow>
   Checksum p (drop 2 (reversed pkt)) = 0 \<Longrightarrow>
   Parse_body fl (seen, msgs, p) pkt =
     (case go_slice (Discriminated p) (Idx pkt + 8 * SymbolLength (Cfg p))
             (Idx pkt + 24 * SymbolLength (Cfg p)) of
        Inl e \<Rightarrow> Inl e
      | Inr tail \<Rightarrow>
          (case update_tracker p (freqError_of fl tail (SampleRate (Cfg p))) of
             Inl e \<Rightarrow> Inl e
           | Inr p' \<Rightarrow>
               (case NewMessage (pkt\<lparr>Data := reversed pkt\<rparr>) of
                  Inl e \<Rightarrow> Inl e
                | Inr m \<Rightarrow> Inr (seen(reversed pkt \<mapsto> True), msgs @ [m], p'))))"
  by (simp add: Parse_body_def reversed_def go_slice_from_def Let_def split: sum.split)

lemma Parse_body_seen:
  assumes "Parse_body fl (seen, msgs, p) pkt = Inr (seen', msgs', p')"
  shows "seen' = (if seen_lookup seen (reversed pkt) then seen else seen(reversed pkt \<mapsto> True))"
proof (cases "seen_lookup seen (reversed pkt)")
  case True
  with assms show ?thesis by (simp add: Parse_body_duplicate)
next
  case False
  show ?thesis
  proof (cases "length (Data pkt) < 2")
    case True
    with assms False show ?thesis by (simp add: Parse_body_short)
  next
    case long: False
    show ?thesis
    proof (cases "Checksum p (drop 2 (reversed pkt)) = 0")
      case True
      with assms False long show ?thesis
        by (simp add: Parse_body_good_checksum split: sum.splits)
    next
      case False
      with assms \<open>\<not> seen_lookup seen (reversed pkt)\<close> long show ?thesis
        by (simp add: Parse_body_bad_checksum)
    qed
  qed
qed

lemma seen_lookup_upd:
  "seen_lookup (seen(d \<mapsto> True)) s \<longleftrightarrow> seen_lookup seen s \<or> s = d"
  by (simp add: seen_lookup_def)

lemma Parse_loop_seen:
  "Parse_loop fl (seen, msgs, p) pkts = Inr (seen', msgs', p') \<Longrightarrow>
   seen_lookup seen' s \<longleftrightarrow> seen_lookup seen s \<or> s \<in> reversed ` set pkts"
proof (induction pkts arbitrary: seen msgs p)
  case Nil
  then show ?case by simp
next
  case (Cons pkt pkts)
  from Cons.prems obtain seen1 msgs1 p1 where
    b: "Parse_body fl (seen, msgs, p) pkt = Inr (seen1, msgs1, p1)"
    and l: "Parse_loop fl (seen1, msgs1, p1) pkts = Inr (seen', msgs', p')"
    by (auto split: sum.splits)
  have "seen_lookup seen1 s \<longleftrightarrow> seen_lookup seen s \<or> s = reversed pkt"
    unfolding Parse_body_seen [OF b] by (auto simp: seen_lookup_upd)
  with Cons.IH [OF l] show ?case
    by auto
qed

lemma Parse_loop_Checksum:
  assumes "Parse_loop fl (seen, msgs, p) pkts = Inr (seen', msgs', p')"
  shows "Checksum p' = Checksum p"
  using arg_cong [OF Parse_loop_frame [OF assms], of Checksum] by simp

lemma Parse_via_loop:
  "Parse fl p pkts = map_sum id snd (Parse_loop fl (Map.empty, [], p) pkts)"
  by (simp add: Parse_def split: sum.split)

lemma Parse_loop_skip_duplicate:
  assumes "reversed b \<in> reversed ` set pre"
  shows "Parse_loop fl st (pre @ b # zs) = Parse_loop fl st (pre @ zs)"
proof (cases "Parse_loop fl st pre")
  case (Inl e)
  then show ?thesis by (simp add: Parse_loop_append)
next
  case (Inr st')
  obtain seen msgs p where st: "st = (seen, msgs, p)"
    by (cases st)
  obtain seen' msgs' p' where st': "st' = (seen', msgs', p')"
    by (cases st')
  from Inr assms have "seen_lookup seen' (reversed b)"
    unfolding st st' by (simp add: Parse_loop_seen)
  then have "Parse_body fl st' b = Inr st'"
    unfolding st' by (rule Parse_body_duplicate)
  with Inr show ?thesis
    by (simp add: Parse_loop_append)
qed

text \<open>
  C3. When two packets of a batch have the same bytes after the bit-order reversal,
  whatever their sample indices are, the batch gives the same result as the batch without
  the second of them: the same messages, the same parser, the same panic if any. The
  second packet is skipped before the slice for the checksum is taken, so it is skipped
  even where that slice or the checksum would fail: an iteration on a packet whose
  reversed bytes are in \<^verbatim>\<open>seen\<close> returns the state it was given.
\<close>

theorem duplicate_is_discarded:
  assumes "reversed a = reversed b"
  shows "Parse fl p (xs @ a # ys @ b # zs) = Parse fl p (xs @ a # ys @ zs)
       \<and> (\<forall>seen msgs q. seen_lookup seen (reversed b) \<longrightarrow>
              Parse_body fl (seen, msgs, q) b = Inr (seen, msgs, q))"
proof
  from assms have "reversed b \<in> reversed ` set (xs @ a # ys)"
    by simp
  from Parse_loop_skip_duplicate [OF this, of fl "(Map.empty, [], p)" zs]
  show "Parse fl p (xs @ a # ys @ b # zs) = Parse fl p (xs @ a # ys @ zs)"
    by (simp add: Parse_via_loop)
  show "\<forall>seen msgs q. seen_lookup seen (reversed b) \<longrightarrow>
          Parse_body fl (seen, msgs, q) b = Inr (seen, msgs, q)"
    by (simp add: Parse_body_duplicate)
qed

theorem duplicate_is_discarded_witness:
  "reversed example_packet = reversed (example_packet\<lparr>Idx := 500\<rparr>)
   \<and> Idx example_packet \<noteq> Idx (example_packet\<lparr>Idx := 500\<rparr>)
   \<and> Parse integer_ops example_parser [example_packet, example_packet\<lparr>Idx := 500\<rparr>] =
       Inr ([\<lparr>Idx = 0, Data = [0x83, 0x0C, 0xC8, 0x47], MsgID = 3, Sensor = 8,
              WindSpeed = 12, WindDirection = 200\<rparr>],
            example_parser\<lparr>channelFreqErr := (channelFreqErr example_parser)(6 \<mapsto> 70),
                             currentFreqErr := 70\<rparr>)
   \<and> Parse_body integer_ops ([reversed example_packet \<mapsto> True], [], example_parser)
         (example_packet\<lparr>Idx := 500\<rparr>)
       = Inr ([reversed example_packet \<mapsto> True], [], example_parser)"
proof -
  have e: "reversed example_packet = reversed (example_packet\<lparr>Idx := 500\<rparr>)"
    by (simp add: reversed_def)
  have i: "Idx example_packet \<noteq> Idx (example_packet\<lparr>Idx := 500\<rparr>)"
    by (simp add: example_packet_def)
  note T = duplicate_is_discarded [OF e, of integer_ops example_parser "[]" "[]" "[]"]
  from T [THEN conjunct1]
  have "Parse integer_ops example_parser [example_packet, example_packet\<lparr>Idx := 500\<rparr>] =
       Parse integer_ops example_parser [example_packet]"
    by simp
  then have two: "Parse integer_ops example_parser [example_packet, example_packet\<lparr>Idx := 500\<rparr>] =
       Inr ([\<lparr>Idx = 0, Data = [0x83, 0x0C, 0xC8, 0x47], MsgID = 3, Sensor = 8,
              WindSpeed = 12, WindDirection = 200\<rparr>],
            example_parser\<lparr>channelFreqErr := (channelFreqErr example_parser)(6 \<mapsto> 70),
                             currentFreqErr := 70\<rparr>)"
    by (simp only: example_Parse)
  have "seen_lookup [reversed example_packet \<mapsto> True] (reversed (example_packet\<lparr>Idx := 500\<rparr>))"
    by (simp add: seen_lookup_def reversed_def)
  from T [THEN conjunct2, THEN spec, THEN spec, THEN spec, THEN mp, OF this]
  have step: "Parse_body integer_ops ([reversed example_packet \<mapsto> True], [], example_parser)
         (example_packet\<lparr>Idx := 500\<rparr>)
       = Inr ([reversed example_packet \<mapsto> True], [], example_parser)" .
  show ?thesis
    by (rule conjI [OF e conjI [OF i conjI [OF two step]]])
qed

section \<open>Parse: the checksum gate and the order of the messages\<close>

lemma spec_accepted_subseq: "subseq (spec_accepted ck prev pkts) pkts"
  by (induction pkts arbitrary: prev) (auto intro: list_emb_Cons)

lemma Parse_body_Checksum:
  assumes "Parse_body fl (seen, msgs, p) pkt = Inr (seen', msgs', p')"
  shows "Checksum p' = Checksum p"
  using arg_cong [OF Parse_body_frame [OF assms], of Checksum] by simp

lemma Parse_body_messages:
  assumes "Parse_body fl (seen, msgs, p) pkt = Inr (seen', msgs', p')"
  shows "map Inr msgs' = map Inr msgs @
     map decoded (if \<not> seen_lookup seen (reversed pkt) \<and> Checksum p (drop 2 (reversed pkt)) = 0
                  then [pkt] else [])"
proof (cases "seen_lookup seen (reversed pkt)")
  case True
  with assms show ?thesis by (simp add: Parse_body_duplicate)
next
  case False
  show ?thesis
  proof (cases "length (Data pkt) < 2")
    case True
    with assms False show ?thesis by (simp add: Parse_body_short)
  next
    case long: False
    show ?thesis
    proof (cases "Checksum p (drop 2 (reversed pkt)) = 0")
      case True
      with assms False long show ?thesis
        by (auto simp add: Parse_body_good_checksum decoded_def split: sum.splits)
    next
      case False
      with assms \<open>\<not> seen_lookup seen (reversed pkt)\<close> long show ?thesis
        by (simp add: Parse_body_bad_checksum)
    qed
  qed
qed

lemma Parse_loop_messages:
  "Parse_loop fl (seen, msgs, p) pkts = Inr (seen', msgs', p') \<Longrightarrow>
   (\<And>s. seen_lookup seen s \<longleftrightarrow> s \<in> set prev) \<Longrightarrow>
   map Inr msgs' = map Inr msgs @ map decoded (spec_accepted (Checksum p) prev pkts)"
proof (induction pkts arbitrary: seen msgs p prev)
  case Nil
  then show ?case by simp
next
  case (Cons pkt pkts)
  from Cons.prems(1) obtain seen1 msgs1 p1 where
    b: "Parse_body fl (seen, msgs, p) pkt = Inr (seen1, msgs1, p1)"
    and l: "Parse_loop fl (seen1, msgs1, p1) pkts = Inr (seen', msgs', p')"
    by (auto split: sum.splits)
  have s1: "seen_lookup seen1 s \<longleftrightarrow> s \<in> set (reversed pkt # prev)" for s
    unfolding Parse_body_seen [OF b] using Cons.prems(2) by (auto simp: seen_lookup_upd)
  have "map Inr msgs' = map Inr msgs1 @ map decoded (spec_accepted (Checksum p1) (reversed pkt # prev) pkts)"
    by (rule Cons.IH [OF l s1])
  also have "Checksum p1 = Checksum p"
    by (rule Parse_body_Checksum [OF b])
  also have "map Inr msgs1 = map Inr msgs @
     map decoded (if \<not> seen_lookup seen (reversed pkt) \<and> Checksum p (drop 2 (reversed pkt)) = 0
                  then [pkt] else [])"
    by (rule Parse_body_messages [OF b])
  finally show ?case
    by (simp add: Cons.prems(2))
qed

lemma Parse_body_other_key:
  assumes "d \<noteq> reversed pkt"
  shows "Parse_body fl (seen(d \<mapsto> True), msgs, p) pkt =
     map_sum id (\<lambda>(s, m, q). (s(d \<mapsto> True), m, q)) (Parse_body fl (seen, msgs, p) pkt)"
proof -
  from assms have k: "seen_lookup (seen(d \<mapsto> True)) (reversed pkt) = seen_lookup seen (reversed pkt)"
    by (auto simp: seen_lookup_upd)
  from assms have tw: "(seen(d \<mapsto> True))(reversed pkt \<mapsto> True) = (seen(reversed pkt \<mapsto> True))(d \<mapsto> True)"
    by (simp add: fun_upd_twist)
  show ?thesis
  proof (cases "seen_lookup seen (reversed pkt)")
    case True
    then show ?thesis by (simp add: Parse_body_duplicate k)
  next
    case False
    show ?thesis
    proof (cases "length (Data pkt) < 2")
      case True
      with False show ?thesis by (simp add: Parse_body_short k)
    next
      case long: False
      show ?thesis
      proof (cases "Checksum p (drop 2 (reversed pkt)) = 0")
        case True
        with False long show ?thesis
          by (simp add: Parse_body_good_checksum k tw split: sum.splits)
      next
        case False
        with \<open>\<not> seen_lookup seen (reversed pkt)\<close> long show ?thesis
          by (simp add: Parse_body_bad_checksum k tw)
      qed
    qed
  qed
qed

lemma bad_key_irrelevant:
  "Checksum p (drop 2 d) \<noteq> 0 \<Longrightarrow> 2 \<le> length d \<Longrightarrow>
   map_sum id snd (Parse_loop fl (seen(d \<mapsto> True), msgs, p) pkts) =
   map_sum id snd (Parse_loop fl (seen, msgs, p) pkts)"
proof (induction pkts arbitrary: seen msgs p)
  case Nil
  then show ?case by simp
next
  case (Cons pkt pkts)
  show ?case
  proof (cases "reversed pkt = d")
    case True
    have len: "2 \<le> length (Data pkt)"
      using Cons.prems(2) True by (auto simp: reversed_def)
    have l: "Parse_body fl (seen(d \<mapsto> True), msgs, p) pkt = Inr (seen(d \<mapsto> True), msgs, p)"
      by (rule Parse_body_duplicate) (simp add: True seen_lookup_upd)
    show ?thesis
    proof (cases "seen_lookup seen d")
      case dup: True
      then have r: "Parse_body fl (seen, msgs, p) pkt = Inr (seen, msgs, p)"
        using True by (simp add: Parse_body_duplicate)
      have "Parse_loop fl (seen(d \<mapsto> True), msgs, p) (pkt # pkts) =
          Parse_loop fl (seen(d \<mapsto> True), msgs, p) pkts"
        by (simp only: Parse_loop.simps l sum.case)
      moreover have "Parse_loop fl (seen, msgs, p) (pkt # pkts) = Parse_loop fl (seen, msgs, p) pkts"
        by (simp only: Parse_loop.simps r sum.case)
      ultimately show ?thesis
        using Cons.IH [OF Cons.prems] by (simp only:)
    next
      case False
      then have r: "Parse_body fl (seen, msgs, p) pkt = Inr (seen(d \<mapsto> True), msgs, p)"
        using True len Cons.prems(1) by (simp add: Parse_body_bad_checksum)
      have "Parse_loop fl (seen(d \<mapsto> True), msgs, p) (pkt # pkts) =
          Parse_loop fl (seen(d \<mapsto> True), msgs, p) pkts"
        by (simp only: Parse_loop.simps l sum.case)
      moreover have "Parse_loop fl (seen, msgs, p) (pkt # pkts) =
          Parse_loop fl (seen(d \<mapsto> True), msgs, p) pkts"
        by (simp only: Parse_loop.simps r sum.case)
      ultimately show ?thesis
        by (simp only:)
    qed
  next
    case False
    then have o: "Parse_body fl (seen(d \<mapsto> True), msgs, p) pkt =
        map_sum id (\<lambda>(s, m, q). (s(d \<mapsto> True), m, q)) (Parse_body fl (seen, msgs, p) pkt)"
      by (intro Parse_body_other_key) simp
    show ?thesis
    proof (cases "Parse_body fl (seen, msgs, p) pkt")
      case (Inl e)
      with o have "Parse_body fl (seen(d \<mapsto> True), msgs, p) pkt = Inl e"
        by simp
      with Inl show ?thesis
        by (simp only: Parse_loop.simps sum.case)
    next
      case (Inr st1)
      obtain s1 m1 p1 where st1: "st1 = (s1, m1, p1)"
        by (cases st1)
      from Inr have "Checksum p1 = Checksum p"
        unfolding st1 by (rule Parse_body_Checksum)
      with Cons.prems have "Checksum p1 (drop 2 d) \<noteq> 0" "2 \<le> length d"
        by simp_all
      note ih = Cons.IH [OF this, of s1 m1]
      from o Inr have "Parse_body fl (seen(d \<mapsto> True), msgs, p) pkt = Inr (s1(d \<mapsto> True), m1, p1)"
        unfolding st1 by simp
      then have "Parse_loop fl (seen(d \<mapsto> True), msgs, p) (pkt # pkts) =
          Parse_loop fl (s1(d \<mapsto> True), m1, p1) pkts"
        by (simp only: Parse_loop.simps sum.case)
      moreover from Inr have "Parse_loop fl (seen, msgs, p) (pkt # pkts) = Parse_loop fl (s1, m1, p1) pkts"
        unfolding st1 by (simp only: Parse_loop.simps sum.case)
      ultimately show ?thesis
        using ih by (simp only:)
    qed
  qed
qed

lemma Parse_loop_skip_bad_checksum:
  assumes "2 \<le> length (Data b)" "Checksum p (drop 2 (reversed b)) \<noteq> 0"
  shows "map_sum id snd (Parse_loop fl (seen, msgs, p) (xs @ b # zs)) =
         map_sum id snd (Parse_loop fl (seen, msgs, p) (xs @ zs))"
proof (cases "Parse_loop fl (seen, msgs, p) xs")
  case (Inl e)
  then show ?thesis by (simp add: Parse_loop_append)
next
  case (Inr st1)
  obtain s1 m1 p1 where st1: "st1 = (s1, m1, p1)"
    by (cases st1)
  from Inr have ck: "Checksum p1 = Checksum p"
    unfolding st1 by (rule Parse_loop_Checksum)
  show ?thesis
  proof (cases "seen_lookup s1 (reversed b)")
    case True
    then have "Parse_body fl (s1, m1, p1) b = Inr (s1, m1, p1)"
      by (rule Parse_body_duplicate)
    with Inr show ?thesis
      unfolding st1 by (simp only: Parse_loop_append Parse_loop.simps sum.case)
  next
    case False
    with assms ck have "Parse_body fl (s1, m1, p1) b = Inr (s1(reversed b \<mapsto> True), m1, p1)"
      by (simp add: Parse_body_bad_checksum)
    with Inr have "Parse_loop fl (seen, msgs, p) (xs @ b # zs) =
        Parse_loop fl (s1(reversed b \<mapsto> True), m1, p1) zs"
      unfolding st1 by (simp only: Parse_loop_append Parse_loop.simps sum.case)
    moreover from Inr have "Parse_loop fl (seen, msgs, p) (xs @ zs) = Parse_loop fl (s1, m1, p1) zs"
      unfolding st1 by (simp only: Parse_loop_append sum.case)
    moreover from assms ck have "map_sum id snd (Parse_loop fl (s1(reversed b \<mapsto> True), m1, p1) zs) =
        map_sum id snd (Parse_loop fl (s1, m1, p1) zs)"
      by (intro bad_key_irrelevant) (simp_all add: reversed_def)
    ultimately show ?thesis
      by (simp only:)
  qed
qed

text \<open>
  C2. The checksum is taken over the reversed payload without its first two bytes. A
  packet for which it is not zero changes nothing but \<^verbatim>\<open>seen\<close>: the iteration returns
  the messages and the parser it was given, the loop goes on, and the batch gives the
  same result (messages, parser, panic if any) as the batch without that packet. The
  messages returned are, in the order of the batch, those of the packets that are no
  duplicate of an earlier packet and whose checksum is zero.
\<close>

theorem checksum_gate_and_order:
  "(2 \<le> length (Data b) \<and> Checksum p (drop 2 (reversed b)) \<noteq> 0 \<longrightarrow>
      Parse fl p (xs @ b # zs) = Parse fl p (xs @ zs)
      \<and> (\<forall>seen msgs. \<not> seen_lookup seen (reversed b) \<longrightarrow>
             Parse_body fl (seen, msgs, p) b = Inr (seen(reversed b \<mapsto> True), msgs, p)))
   \<and> (\<forall>msgs p'. Parse fl p pkts = Inr (msgs, p') \<longrightarrow>
        map Inr msgs = map decoded (spec_accepted (Checksum p) [] pkts)
        \<and> subseq (spec_accepted (Checksum p) [] pkts) pkts)"
proof (intro conjI impI allI)
  assume "2 \<le> length (Data b) \<and> Checksum p (drop 2 (reversed b)) \<noteq> 0"
  then have h: "2 \<le> length (Data b)" "Checksum p (drop 2 (reversed b)) \<noteq> 0"
    by simp_all
  from Parse_loop_skip_bad_checksum [OF h, of fl Map.empty "[]" xs zs]
  show "Parse fl p (xs @ b # zs) = Parse fl p (xs @ zs)"
    by (simp only: Parse_via_loop)
  fix seen :: "byte list \<rightharpoonup> bool" and msgs :: "Message list"
  assume "\<not> seen_lookup seen (reversed b)"
  then show "Parse_body fl (seen, msgs, p) b = Inr (seen(reversed b \<mapsto> True), msgs, p)"
    using h by (rule Parse_body_bad_checksum)
next
  fix msgs p'
  assume "Parse fl p pkts = Inr (msgs, p')"
  then obtain seen' where "Parse_loop fl (Map.empty, [], p) pkts = Inr (seen', msgs, p')"
    by (auto simp: Parse_def split: sum.splits)
  from Parse_loop_messages [OF this, of "[]"]
  show "map Inr msgs = map decoded (spec_accepted (Checksum p) [] pkts)"
    by (simp add: seen_lookup_def)
next
  fix msgs :: "Message list" and p' :: "'a Parser"
  show "subseq (spec_accepted (Checksum p) [] pkts) pkts"
    by (rule spec_accepted_subseq)
qed

lemma example_noise_checksum:
  "2 \<le> length (Data example_noise) \<and>
   Checksum example_parser (drop 2 (reversed example_noise)) \<noteq> 0"
  by (simp add: example_noise_def example_parser_def reversed_def SwapBitOrder_def xor_checksum_def)

theorem checksum_gate_and_order_witness:
  "2 \<le> length (Data example_noise)
   \<and> Checksum example_parser (drop 2 (reversed example_noise)) \<noteq> 0
   \<and> Parse integer_ops example_parser [example_noise, example_packet] =
       Inr ([\<lparr>Idx = 0, Data = [0x83, 0x0C, 0xC8, 0x47], MsgID = 3, Sensor = 8,
              WindSpeed = 12, WindDirection = 200\<rparr>],
            example_parser\<lparr>channelFreqErr := (channelFreqErr example_parser)(6 \<mapsto> 70),
                             currentFreqErr := 70\<rparr>)
   \<and> Parse_body integer_ops (Map.empty, [], example_parser) example_noise =
       Inr ([reversed example_noise \<mapsto> True], [], example_parser)
   \<and> map decoded (spec_accepted (Checksum example_parser) [] [example_noise, example_packet]) =
       [Inr \<lparr>Idx = 0, Data = [0x83, 0x0C, 0xC8, 0x47], MsgID = 3, Sensor = 8,
              WindSpeed = 12, WindDirection = 200\<rparr>]
   \<and> subseq (spec_accepted (Checksum example_parser) [] [example_noise, example_packet])
         [example_noise, example_packet]"
proof -
  let ?m = "\<lparr>Idx = 0, Data = [0x83, 0x0C, 0xC8, 0x47], MsgID = 3, Sensor = 8,
              WindSpeed = 12, WindDirection = 200\<rparr>"
  let ?P1 = "example_parser\<lparr>channelFreqErr := (channelFreqErr example_parser)(6 \<mapsto> 70),
                             currentFreqErr := 70\<rparr>"
  note T = checksum_gate_and_order [of example_noise example_parser integer_ops "[]" "[example_packet]"
      "[example_noise, example_packet]"]
  note G = T [THEN conjunct1, THEN mp, OF example_noise_checksum]
  from G [THEN conjunct1]
  have two: "Parse integer_ops example_parser [example_noise, example_packet] = Inr ([?m], ?P1)"
    by (simp only: append_Nil example_Parse)
  have "\<not> seen_lookup Map.empty (reversed example_noise)"
    by (simp add: seen_lookup_def)
  from G [THEN conjunct2, THEN spec, THEN spec, THEN mp, OF this]
  have step: "Parse_body integer_ops (Map.empty, [], example_parser) example_noise =
       Inr ([reversed example_noise \<mapsto> True], [], example_parser)" .
  note O = T [THEN conjunct2, THEN spec, THEN spec, THEN mp, OF two]
  from O [THEN conjunct1]
  have dec: "map decoded (spec_accepted (Checksum example_parser) [] [example_noise, example_packet]) = [Inr ?m]"
    by simp
  note sub = O [THEN conjunct2]
  show ?thesis
    by (rule conjI [OF example_noise_checksum [THEN conjunct1]
          conjI [OF example_noise_checksum [THEN conjunct2]
          conjI [OF two conjI [OF step conjI [OF dec sub]]]]])
qed

section \<open>The length of the payload\<close>

lemma NewMessage_short:
  "length (Data pkt) < 2 \<Longrightarrow> NewMessage pkt = Inl MakesliceLenOutOfRange"
  by (simp add: NewMessage_def)

lemma NewMessage_index:
  assumes "2 \<le> length (Data pkt)" "length (Data pkt) < 5"
  shows "NewMessage pkt = Inl IndexOutOfRange"
proof -
  from assms consider "length (Data pkt) = 2" | "length (Data pkt) = 3" | "length (Data pkt) = 4"
    by arith
  then show ?thesis
    by cases (simp_all add: NewMessage_def go_index_def word_sle_eq)
qed

lemma NewMessage_long:
  assumes "5 \<le> length (Data pkt)"
  shows "NewMessage pkt =
     Inr \<lparr> Idx = Idx pkt, Data = drop 2 (Data pkt),
           MsgID = drop 2 (Data pkt) ! 0 AND 0xF,
           Sensor = drop_bit 4 (drop 2 (Data pkt) ! 0),
           WindSpeed = drop 2 (Data pkt) ! 1,
           WindDirection = drop 2 (Data pkt) ! 2 \<rparr>"
proof -
  from assms have "0 < length (Data pkt) - 2" "Suc 0 < length (Data pkt) - 2"
    "2 < length (Data pkt) - 2" "\<not> length (Data pkt) < 2"
    by arith+
  then show ?thesis
    by (simp add: NewMessage_def go_index_def word_sle_eq Let_def)
qed

lemma NewMessage_panics_iff: "(\<exists>e. NewMessage pkt = Inl e) \<longleftrightarrow> length (Data pkt) < 5"
proof (cases "length (Data pkt) < 2")
  case True
  then show ?thesis by (simp add: NewMessage_short)
next
  case False
  show ?thesis
  proof (cases "length (Data pkt) < 5")
    case True
    with False show ?thesis by (simp add: NewMessage_index)
  next
    case False
    then show ?thesis by (simp add: NewMessage_long)
  qed
qed

lemma Parse_body_panics_on_short:
  assumes "\<not> seen_lookup seen (reversed b)" "length (Data b) < 5"
    "length (Data b) < 2 \<or> Checksum p (drop 2 (reversed b)) = 0"
  shows "\<exists>e. Parse_body fl (seen, msgs, p) b = Inl e"
proof (cases "length (Data b) < 2")
  case True
  with assms(1) show ?thesis by (simp add: Parse_body_short)
next
  case False
  with assms(3) have ck: "Checksum p (drop 2 (reversed b)) = 0" and len: "2 \<le> length (Data b)"
    by simp_all
  from assms(2) have "length (Data (b\<lparr>Data := reversed b\<rparr>)) < 5"
    by (simp add: reversed_def)
  then obtain e where "NewMessage (b\<lparr>Data := reversed b\<rparr>) = Inl e"
    using NewMessage_panics_iff by blast
  then show ?thesis
    by (simp add: Parse_body_good_checksum [OF assms(1) len ck] split: sum.split)
qed

lemma Parse_panics_on_short:
  assumes "reversed b \<notin> reversed ` set xs" "length (Data b) < 5"
    "length (Data b) < 2 \<or> Checksum p (drop 2 (reversed b)) = 0"
  shows "\<exists>e. Parse fl p (xs @ b # zs) = Inl e"
proof (cases "Parse_loop fl (Map.empty, [], p) xs")
  case (Inl e)
  then show ?thesis
    by (simp add: Parse_via_loop Parse_loop_append)
next
  case (Inr st1)
  obtain s1 m1 p1 where st1: "st1 = (s1, m1, p1)"
    by (cases st1)
  from Inr have ck: "Checksum p1 = Checksum p"
    unfolding st1 by (rule Parse_loop_Checksum)
  have "\<not> seen_lookup Map.empty (reversed b)"
    by (simp add: seen_lookup_def)
  with assms(1) have "\<not> seen_lookup s1 (reversed b)"
    unfolding Parse_loop_seen [OF Inr [unfolded st1]] by simp
  from Parse_body_panics_on_short [OF this assms(2), of p1 fl m1] assms(3) ck
  obtain e where "Parse_body fl (s1, m1, p1) b = Inl e"
    by auto
  with Inr show ?thesis
    by (simp add: Parse_via_loop Parse_loop_append st1)
qed

lemma Parse_body_returns:
  fixes p :: "'f Parser"
  assumes "constructed p" "hopIdx_in_range p" "5 \<le> length (Data pkt)" "window_in_trace p pkt"
  shows "\<exists>seen' msgs' p'. Parse_body fl (seen, msgs, p) pkt = Inr (seen', msgs', p')"
proof (cases "seen_lookup seen (reversed pkt)")
  case True
  then show ?thesis by (simp add: Parse_body_duplicate)
next
  case False
  from assms(3) have len: "2 \<le> length (Data pkt)"
    by simp
  show ?thesis
  proof (cases "Checksum p (drop 2 (reversed pkt)) = 0")
    case True
    from assms(4) obtain tail where
      "go_slice (Discriminated p) (Idx pkt + 8 * SymbolLength (Cfg p))
         (Idx pkt + 24 * SymbolLength (Cfg p)) = Inr tail"
      by (simp add: window_in_trace_def go_slice_def Let_def)
    moreover from assms(3) have "5 \<le> length (Data (pkt\<lparr>Data := reversed pkt\<rparr>))"
      by (simp add: reversed_def)
    ultimately show ?thesis
      by (simp add: Parse_body_good_checksum [OF False len True]
          update_tracker_result [OF assms(1,2)] NewMessage_long)
  next
    case bad: False
    with False len show ?thesis by (simp add: Parse_body_bad_checksum)
  qed
qed

lemma Parse_loop_returns:
  fixes p :: "'f Parser"
  shows "constructed p \<Longrightarrow> hopIdx_in_range p \<Longrightarrow>
    (\<And>pkt. pkt \<in> set pkts \<Longrightarrow> 5 \<le> length (Data pkt) \<and> window_in_trace p pkt) \<Longrightarrow>
    \<exists>seen' msgs' p'. Parse_loop fl (seen, msgs, p) pkts = Inr (seen', msgs', p')"
proof (induction pkts arbitrary: seen msgs p)
  case Nil
  then show ?case by simp
next
  case (Cons pkt pkts)
  from Cons.prems(3) [of pkt] have here: "5 \<le> length (Data pkt)" "window_in_trace p pkt"
    by simp_all
  from Parse_body_returns [OF Cons.prems(1,2) here] obtain seen1 msgs1 p1 where
    b: "Parse_body fl (seen, msgs, p) pkt = Inr (seen1, msgs1, p1)"
    by blast
  note f = Parse_body_frame [OF b]
  from frame_invariants [OF f] Cons.prems(1,2) have inv: "constructed p1" "hopIdx_in_range p1"
    by simp_all
  from arg_cong [OF f, of Cfg] arg_cong [OF f, of Discriminated]
  have same: "Cfg p1 = Cfg p" "Discriminated p1 = Discriminated p"
    by simp_all
  have rest: "5 \<le> length (Data q) \<and> window_in_trace p1 q" if "q \<in> set pkts" for q
    using Cons.prems(3) [of q] that by (simp add: window_in_trace_def same)
  from Cons.IH [OF inv rest, of seen1 msgs1] b show ?case
    by simp
qed

text \<open>
  C10. Neither function checks the length of the payload. \<^verbatim>\<open>NewMessage\<close> panics
  exactly on payloads of fewer than five bytes: in \<^verbatim>\<open>make\<close> below two bytes, on an index
  out of range from two to four. \<^verbatim>\<open>Parse\<close> panics on every batch that holds a packet
  of fewer than five bytes which is no duplicate of an earlier packet and which either has
  fewer than two bytes (the slice for the checksum is out of bounds) or passes the
  checksum. With the constructor's tables, the hop index in range, every payload of at
  least five bytes and every window inside the trace, \<^verbatim>\<open>Parse\<close> returns.
\<close>

theorem payload_length_precondition:
  fixes p :: "'f Parser"
  shows "((\<exists>e. NewMessage pkt = Inl e) \<longleftrightarrow> length (Data pkt) < 5)
   \<and> (length (Data pkt) < 2 \<longrightarrow> NewMessage pkt = Inl MakesliceLenOutOfRange)
   \<and> (2 \<le> length (Data pkt) \<and> length (Data pkt) < 5 \<longrightarrow> NewMessage pkt = Inl IndexOutOfRange)
   \<and> (reversed b \<notin> reversed ` set xs \<and> length (Data b) < 5
        \<and> (length (Data b) < 2 \<or> Checksum p (drop 2 (reversed b)) = 0) \<longrightarrow>
        (\<exists>e. Parse fl p (xs @ b # zs) = Inl e))
   \<and> (constructed p \<and> hopIdx_in_range p
        \<and> (\<forall>pkt \<in> set pkts. 5 \<le> length (Data pkt) \<and> window_in_trace p pkt) \<longrightarrow>
        (\<exists>msgs p'. Parse fl p pkts = Inr (msgs, p')))"
proof -
  have c2: "length (Data pkt) < 2 \<longrightarrow> NewMessage pkt = Inl MakesliceLenOutOfRange"
    by (simp add: NewMessage_short)
  have c3: "2 \<le> length (Data pkt) \<and> length (Data pkt) < 5 \<longrightarrow> NewMessage pkt = Inl IndexOutOfRange"
    by (simp add: NewMessage_index)
  have c4: "reversed b \<notin> reversed ` set xs \<and> length (Data b) < 5
        \<and> (length (Data b) < 2 \<or> Checksum p (drop 2 (reversed b)) = 0) \<longrightarrow>
        (\<exists>e. Parse fl p (xs @ b # zs) = Inl e)"
    using Parse_panics_on_short [of b xs p fl zs] by (intro impI) (elim conjE)
  have c5: "constructed p \<and> hopIdx_in_range p
        \<and> (\<forall>pkt \<in> set pkts. 5 \<le> length (Data pkt) \<and> window_in_trace p pkt) \<longrightarrow>
        (\<exists>msgs p'. Parse fl p pkts = Inr (msgs, p'))"
  proof (intro impI, elim conjE)
    assume a: "constructed p" "hopIdx_in_range p"
      "\<forall>pkt \<in> set pkts. 5 \<le> length (Data pkt) \<and> window_in_trace p pkt"
    then have "5 \<le> length (Data q) \<and> window_in_trace p q" if "q \<in> set pkts" for q
      using that by blast
    from Parse_loop_returns [OF a(1,2) this, of pkts fl Map.empty "[]"]
    show "\<exists>msgs p'. Parse fl p pkts = Inr (msgs, p')"
      by (auto simp: Parse_via_loop)
  qed
  show ?thesis
    by (rule conjI [OF NewMessage_panics_iff conjI [OF c2 conjI [OF c3 conjI [OF c4 c5]]]])
qed

theorem payload_length_precondition_witness:
  "length (Data example_short) < 5 \<and> 2 \<le> length (Data example_short)
   \<and> Checksum example_parser (drop 2 (reversed example_short)) = 0
   \<and> NewMessage example_short = Inl IndexOutOfRange
   \<and> (\<exists>e. NewMessage example_short = Inl e)
   \<and> NewMessage (example_short\<lparr>Data := [0xCB]\<rparr>) = Inl MakesliceLenOutOfRange
   \<and> (\<exists>e. Parse integer_ops example_parser [example_packet, example_short] = Inl e)
   \<and> constructed example_parser \<and> hopIdx_in_range example_parser
   \<and> 5 \<le> length (Data example_packet) \<and> window_in_trace example_parser example_packet
   \<and> (\<exists>msgs p'. Parse integer_ops example_parser [example_packet] = Inr (msgs, p'))"
proof -
  have l: "length (Data example_short) < 5" "2 \<le> length (Data example_short)"
    by (simp_all add: example_short_def)
  have k: "Checksum example_parser (drop 2 (reversed example_short)) = 0"
    by (simp add: example_short_def example_parser_def reversed_def SwapBitOrder_def xor_checksum_def)
  have n: "reversed example_short \<notin> reversed ` set [example_packet]"
    by (simp add: example_short_def example_packet_def reversed_def)
  have c: "constructed example_parser"
    by (simp add: constructed_def example_parser_def)
  have r: "hopIdx_in_range example_parser"
    by (simp add: hopIdx_in_range_def example_parser_def word_sle_eq word_sless_alt)
  have g: "5 \<le> length (Data example_packet)"
    by (simp add: example_packet_def)
  have w: "window_in_trace example_parser example_packet"
    by (simp add: window_in_trace_def example_parser_def example_packet_def word_sle_eq)
  note T = payload_length_precondition [of example_short example_short "[example_packet]"
      example_parser integer_ops "[]" "[example_packet]"]
  note U = payload_length_precondition [of "example_short\<lparr>Data := [0xCB]\<rparr>" example_short
      "[example_packet]" example_parser integer_ops "[]" "[example_packet]"]
  from T [THEN conjunct1] l(1) have t1: "\<exists>e. NewMessage example_short = Inl e"
    by simp
  from T [THEN conjunct2, THEN conjunct2, THEN conjunct1] l
  have t3: "NewMessage example_short = Inl IndexOutOfRange"
    by simp
  from U [THEN conjunct2, THEN conjunct1]
  have t2: "NewMessage (example_short\<lparr>Data := [0xCB]\<rparr>) = Inl MakesliceLenOutOfRange"
    by simp
  from T [THEN conjunct2, THEN conjunct2, THEN conjunct2, THEN conjunct1] n l(1) k
  have t4: "\<exists>e. Parse integer_ops example_parser [example_packet, example_short] = Inl e"
    by simp
  from T [THEN conjunct2, THEN conjunct2, THEN conjunct2, THEN conjunct2] c r g w
  have t5: "\<exists>msgs p'. Parse integer_ops example_parser [example_packet] = Inr (msgs, p')"
    by simp
  show ?thesis
    by (rule conjI [OF l(1) conjI [OF l(2) conjI [OF k conjI [OF t3 conjI [OF t1 conjI [OF t2
          conjI [OF t4 conjI [OF c conjI [OF r conjI [OF g conjI [OF w t5]]]]]]]]]]])
qed

section \<open>Messages and sensor names\<close>

lemma NewMessage_spec_message:
  "5 \<le> length (Data pkt) \<Longrightarrow>
   NewMessage pkt = Inr (spec_message (Idx pkt) (drop 2 (Data pkt)))"
  by (simp add: NewMessage_long spec_message_def)

lemma decoded_Inr:
  assumes "decoded pkt = Inr m"
  shows "m = spec_message (Idx pkt) (drop 2 (reversed pkt))"
proof -
  from assms have "\<not> (\<exists>e. NewMessage (pkt\<lparr>Data := reversed pkt\<rparr>) = Inl e)"
    by (simp add: decoded_def)
  then have "5 \<le> length (Data (pkt\<lparr>Data := reversed pkt\<rparr>))"
    unfolding NewMessage_panics_iff by simp
  from NewMessage_spec_message [OF this] assms show ?thesis
    by (simp add: decoded_def)
qed

lemma map_decoded_Inr:
  "map Inr msgs = map decoded pkts \<Longrightarrow>
   msgs = map (\<lambda>pkt. spec_message (Idx pkt) (drop 2 (reversed pkt))) pkts"
proof (induction pkts arbitrary: msgs)
  case Nil
  then show ?case by simp
next
  case (Cons pkt pkts)
  then obtain m ms where ms: "msgs = m # ms" "decoded pkt = Inr m" "map Inr ms = map decoded pkts"
    by (cases msgs) auto
  from Cons.IH [OF ms(3)] decoded_Inr [OF ms(2)] ms(1) show ?case
    by simp
qed

lemma Sensor_String_unknown:
  assumes "s \<notin> {2, 4, 5, 6, 7, 8, 9, 0xA, 0xE}"
  shows "Sensor_String s = ''Unknown(0x'' @ fmt_X s @ '')''"
  using assms
  by (simp add: Sensor_String_def SuperCapVoltage_def UVIndex_def RainRate_def
      SolarRadiation_def Light_def Temperature_def WindGustSpeed_def Humidity_def Rain_def)

lemma Sensor_String_F: "Sensor_String 0xF = ''Unknown(0xF)''"
  by (simp add: Sensor_String_def SuperCapVoltage_def UVIndex_def RainRate_def
      SolarRadiation_def Light_def Temperature_def WindGustSpeed_def Humidity_def Rain_def
      fmt_X_def hex_digit_def)

lemma Sensor_String_known:
  "map Sensor_String [2, 4, 5, 6, 7, 8, 9, 0xA, 0xE] =
     [''SuperCap Voltage'', ''UV Index'', ''Rain Rate'', ''Solar Radiation'', ''Light'',
      ''Temperature'', ''Wind Gust Speed'', ''Humidity'', ''Rain'']"
  by (simp add: Sensor_String_def SuperCapVoltage_def UVIndex_def RainRate_def
      SolarRadiation_def Light_def Temperature_def WindGustSpeed_def Humidity_def Rain_def)

text \<open>
  C6. For a payload of at least five bytes \<^verbatim>\<open>NewMessage\<close> returns the message with the
  packet's sample index, the payload without its first two bytes, and the fields read
  from bytes 0, 1 and 2 of that stripped payload. The messages that \<^verbatim>\<open>Parse\<close> returns
  are these messages for the reversed payloads of the accepted packets, in order. A sensor
  code outside the nine named ones is rendered as \<open>Unknown(0x\<close>, its upper-case
  hexadecimal digits and \<open>)\<close>; code \<open>0xF\<close> gives \<open>Unknown(0xF)\<close>.
\<close>

theorem message_construction:
  "(5 \<le> length (Data pkt) \<longrightarrow>
      (\<exists>m. NewMessage pkt = Inr m \<and> Idx m = Idx pkt \<and> Data m = drop 2 (Data pkt)
           \<and> MsgID m = Data m ! 0 AND 0xF \<and> Sensor m = drop_bit 4 (Data m ! 0)
           \<and> WindSpeed m = Data m ! 1 \<and> WindDirection m = Data m ! 2))
   \<and> (\<forall>msgs p'. Parse fl p pkts = Inr (msgs, p') \<longrightarrow>
        msgs = map (\<lambda>pkt. spec_message (Idx pkt) (drop 2 (reversed pkt)))
                 (spec_accepted (Checksum p) [] pkts))
   \<and> (s \<notin> {2, 4, 5, 6, 7, 8, 9, 0xA, 0xE} \<longrightarrow> Sensor_String s = ''Unknown(0x'' @ fmt_X s @ '')'')
   \<and> Sensor_String 0xF = ''Unknown(0xF)''
   \<and> map Sensor_String [2, 4, 5, 6, 7, 8, 9, 0xA, 0xE] =
       [''SuperCap Voltage'', ''UV Index'', ''Rain Rate'', ''Solar Radiation'', ''Light'',
        ''Temperature'', ''Wind Gust Speed'', ''Humidity'', ''Rain'']"
proof -
  have c1: "5 \<le> length (Data pkt) \<longrightarrow>
      (\<exists>m. NewMessage pkt = Inr m \<and> Idx m = Idx pkt \<and> Data m = drop 2 (Data pkt)
           \<and> MsgID m = Data m ! 0 AND 0xF \<and> Sensor m = drop_bit 4 (Data m ! 0)
           \<and> WindSpeed m = Data m ! 1 \<and> WindDirection m = Data m ! 2)"
    by (simp add: NewMessage_long)
  have c2: "\<forall>msgs p'. Parse fl p pkts = Inr (msgs, p') \<longrightarrow>
        msgs = map (\<lambda>pkt. spec_message (Idx pkt) (drop 2 (reversed pkt)))
                 (spec_accepted (Checksum p) [] pkts)"
  proof (intro allI impI)
    fix msgs p'
    assume "Parse fl p pkts = Inr (msgs, p')"
    then obtain seen' where "Parse_loop fl (Map.empty, [], p) pkts = Inr (seen', msgs, p')"
      by (auto simp: Parse_def split: sum.splits)
    from Parse_loop_messages [OF this, of "[]"]
    have "map Inr msgs = map decoded (spec_accepted (Checksum p) [] pkts)"
      by (simp add: seen_lookup_def)
    then show "msgs = map (\<lambda>pkt. spec_message (Idx pkt) (drop 2 (reversed pkt)))
                 (spec_accepted (Checksum p) [] pkts)"
      by (rule map_decoded_Inr)
  qed
  have c3: "s \<notin> {2, 4, 5, 6, 7, 8, 9, 0xA, 0xE} \<longrightarrow>
      Sensor_String s = ''Unknown(0x'' @ fmt_X s @ '')''"
    using Sensor_String_unknown by (intro impI)
  show ?thesis
    by (rule conjI [OF c1 conjI [OF c2 conjI [OF c3 conjI [OF Sensor_String_F Sensor_String_known]]]])
qed

theorem message_construction_witness:
  "5 \<le> length (Data (example_packet\<lparr>Data := reversed example_packet\<rparr>))
   \<and> (\<exists>m. NewMessage (example_packet\<lparr>Data := reversed example_packet\<rparr>) = Inr m
          \<and> Idx m = 0 \<and> Data m = [0x83, 0x0C, 0xC8, 0x47] \<and> MsgID m = 3 \<and> Sensor m = 8
          \<and> WindSpeed m = 12 \<and> WindDirection m = 200)
   \<and> map (\<lambda>pkt. spec_message (Idx pkt) (drop 2 (reversed pkt)))
         (spec_accepted (Checksum example_parser) [] [example_packet]) =
       [\<lparr>Idx = 0, Data = [0x83, 0x0C, 0xC8, 0x47], MsgID = 3, Sensor = 8,
            WindSpeed = 12, WindDirection = 200\<rparr>]
   \<and> (0x1B :: byte) \<notin> {2, 4, 5, 6, 7, 8, 9, 0xA, 0xE}
   \<and> Sensor_String 0x1B = ''Unknown(0x1B)''
   \<and> Sensor_String 8 = ''Temperature''"
proof -
  let ?m = "\<lparr>Idx = 0, Data = [0x83, 0x0C, 0xC8, 0x47], MsgID = 3, Sensor = 8,
            WindSpeed = 12, WindDirection = 200\<rparr>"
  have l: "5 \<le> length (Data (example_packet\<lparr>Data := reversed example_packet\<rparr>))"
    by (simp add: reversed_def example_packet_def)
  have rev: "reversed example_packet = [0xD3, 0x91, 0x83, 0x0C, 0xC8, 0x47]"
    by (simp add: reversed_def example_swap)
  have u: "(0x1B :: byte) \<notin> {2, 4, 5, 6, 7, 8, 9, 0xA, 0xE}"
    by simp
  note T = message_construction [of "example_packet\<lparr>Data := reversed example_packet\<rparr>"
      integer_ops example_parser "[example_packet]" "0x1B"]
  from T [THEN conjunct1, THEN mp, OF l]
  have t1: "\<exists>m. NewMessage (example_packet\<lparr>Data := reversed example_packet\<rparr>) = Inr m
          \<and> Idx m = 0 \<and> Data m = [0x83, 0x0C, 0xC8, 0x47] \<and> MsgID m = 3 \<and> Sensor m = 8
          \<and> WindSpeed m = 12 \<and> WindDirection m = 200"
    unfolding rev by (elim exE conjE, intro exI conjI) (simp_all add: example_packet_def)
  from T [THEN conjunct2, THEN conjunct1, THEN spec, THEN spec, THEN mp, OF example_Parse]
  have t2: "map (\<lambda>pkt. spec_message (Idx pkt) (drop 2 (reversed pkt)))
         (spec_accepted (Checksum example_parser) [] [example_packet]) = [?m]"
    by (rule sym)
  from T [THEN conjunct2, THEN conjunct2, THEN conjunct1, THEN mp, OF u]
  have t3: "Sensor_String 0x1B = ''Unknown(0x1B)''"
    by (simp add: fmt_X_def hex_digit_def)
  from T [THEN conjunct2, THEN conjunct2, THEN conjunct2, THEN conjunct2]
  have t4: "Sensor_String 8 = ''Temperature''"
    by simp
  show ?thesis
    by (rule conjI [OF l conjI [OF t1 conjI [OF t2 conjI [OF u conjI [OF t3 t4]]]]])
qed

section \<open>Frequency tracking over every batch\<close>

lemma Parse_body_decodes:
  assumes "Parse_body fl (seen, msgs, p) pkt = Inr (seen', msgs', p')" "msgs' \<noteq> msgs"
  shows "\<exists>delta. measured_error fl p pkt = Inr delta \<and> update_tracker p delta = Inr p'"
proof (cases "seen_lookup seen (reversed pkt)")
  case True
  with assms show ?thesis by (simp add: Parse_body_duplicate)
next
  case False
  show ?thesis
  proof (cases "length (Data pkt) < 2")
    case True
    with assms False show ?thesis by (simp add: Parse_body_short)
  next
    case long: False
    show ?thesis
    proof (cases "Checksum p (drop 2 (reversed pkt)) = 0")
      case True
      with assms(1) False long show ?thesis
        by (simp add: Parse_body_good_checksum measured_error_def split: sum.splits)
    next
      case False
      with assms \<open>\<not> seen_lookup seen (reversed pkt)\<close> long show ?thesis
        by (simp add: Parse_body_bad_checksum)
    qed
  qed
qed

lemma Parse_body_tracker:
  assumes "Parse_body fl (seen, msgs, p) pkt = Inr (seen', msgs', p')"
  shows "spec_tracker fl p
      (if \<not> seen_lookup seen (reversed pkt) \<and> Checksum p (drop 2 (reversed pkt)) = 0
       then [pkt] else []) = Inr p'"
proof (cases "seen_lookup seen (reversed pkt)")
  case True
  with assms show ?thesis by (simp add: Parse_body_duplicate)
next
  case False
  show ?thesis
  proof (cases "length (Data pkt) < 2")
    case True
    with assms False show ?thesis by (simp add: Parse_body_short)
  next
    case long: False
    show ?thesis
    proof (cases "Checksum p (drop 2 (reversed pkt)) = 0")
      case True
      with assms(1) False long show ?thesis
        by (auto simp add: Parse_body_good_checksum measured_error_def split: sum.splits)
    next
      case False
      with assms \<open>\<not> seen_lookup seen (reversed pkt)\<close> long show ?thesis
        by (simp add: Parse_body_bad_checksum)
    qed
  qed
qed

lemma spec_tracker_append:
  "spec_tracker fl p (xs @ ys) =
     (case spec_tracker fl p xs of Inl e \<Rightarrow> Inl e | Inr p' \<Rightarrow> spec_tracker fl p' ys)"
  by (induction xs arbitrary: p) (simp_all split: sum.splits)

lemma Parse_loop_tracker:
  "Parse_loop fl (seen, msgs, p) pkts = Inr (seen', msgs', p') \<Longrightarrow>
   (\<And>s. seen_lookup seen s \<longleftrightarrow> s \<in> set prev) \<Longrightarrow>
   spec_tracker fl p (spec_accepted (Checksum p) prev pkts) = Inr p'"
proof (induction pkts arbitrary: seen msgs p prev)
  case Nil
  then show ?case by simp
next
  case (Cons pkt pkts)
  from Cons.prems(1) obtain seen1 msgs1 p1 where
    b: "Parse_body fl (seen, msgs, p) pkt = Inr (seen1, msgs1, p1)"
    and l: "Parse_loop fl (seen1, msgs1, p1) pkts = Inr (seen', msgs', p')"
    by (auto split: sum.splits)
  have s1: "seen_lookup seen1 s \<longleftrightarrow> s \<in> set (reversed pkt # prev)" for s
    unfolding Parse_body_seen [OF b] using Cons.prems(2) by (auto simp: seen_lookup_upd)
  have ck: "Checksum p1 = Checksum p"
    by (rule Parse_body_Checksum [OF b])
  have rest: "spec_tracker fl p1 (spec_accepted (Checksum p) (reversed pkt # prev) pkts) = Inr p'"
    using Cons.IH [OF l s1] by (simp only: ck)
  have first: "spec_tracker fl p
      (if reversed pkt \<notin> set prev \<and> Checksum p (drop 2 (reversed pkt)) = 0
       then [pkt] else []) = Inr p1"
    using Parse_body_tracker [OF b] by (simp only: Cons.prems(2))
  show ?case
    by (simp only: spec_accepted.simps spec_tracker_append first rest sum.case)
qed

text \<open>
  C1. In a parser with the constructor's tables and its hop index in range, let \<open>ch\<close> be
  the channel of the current index. If \<open>ch\<close> has no recorded error, \<^verbatim>\<open>hop\<close> reports
  the current error and changes nothing. The tracker's update with \<open>delta\<close> adds
  \<open>delta\<close> to the current error and records the sum for \<open>ch\<close>; in every later state
  \<open>q\<close> whose index resolves to \<open>ch\<close> and whose record for \<open>ch\<close> is still that one,
  \<^verbatim>\<open>hop\<close> reports the previous current error plus \<open>delta\<close>. \<^verbatim>\<open>Parse\<close> does this
  update for every packet it decodes, in every batch: the parser it returns is the one
  reached by one update per accepted packet, in order, each with the error measured for
  that packet; and whenever the last packet of a batch adds a message, the parser
  returned is the update, with the error measured for that packet, of the parser that
  the batch without it returns, and \<^verbatim>\<open>hop\<close> on it reports that parser's current error
  plus the measured error. Sums are those of Go's \<^verbatim>\<open>int\<close>.
\<close>

theorem frequency_tracking_round_trip:
  fixes p q :: "'f Parser"
  assumes "constructed p" and "hopIdx_in_range p"
  shows "(channelFreqErr p (hopPattern p ! unat (hopIdx p)) = None \<longrightarrow>
            (\<exists>h. hop p = Inr (h, p) \<and> ChannelIdx h = hopPattern p ! unat (hopIdx p)
                 \<and> FreqError h = currentFreqErr p))
       \<and> (\<exists>p1. update_tracker p delta = Inr p1
            \<and> currentFreqErr p1 = currentFreqErr p + delta
            \<and> channelFreqErr p1 =
                (channelFreqErr p)(hopPattern p ! unat (hopIdx p) \<mapsto> currentFreqErr p + delta)
            \<and> (constructed q \<and> hopIdx_in_range q
                 \<and> hopPattern q ! unat (hopIdx q) = hopPattern p ! unat (hopIdx p)
                 \<and> channelFreqErr q (hopPattern p ! unat (hopIdx p))
                     = channelFreqErr p1 (hopPattern p ! unat (hopIdx p)) \<longrightarrow>
                 (\<exists>h q'. hop q = Inr (h, q') \<and> ChannelIdx h = hopPattern p ! unat (hopIdx p)
                      \<and> FreqError h = currentFreqErr p + delta
                      \<and> currentFreqErr q' = currentFreqErr p + delta)))
       \<and> (\<forall>msgs p'. Parse fl p [pkt] = Inr (msgs, p') \<and> msgs \<noteq> [] \<longrightarrow>
            (\<exists>tail. go_slice (Discriminated p) (Idx pkt + 8 * SymbolLength (Cfg p))
                       (Idx pkt + 24 * SymbolLength (Cfg p)) = Inr tail
                  \<and> update_tracker p (freqError_of fl tail (SampleRate (Cfg p))) = Inr p'))
       \<and> (\<forall>msgs p'. Parse fl p pkts = Inr (msgs, p') \<longrightarrow>
            spec_tracker fl p (spec_accepted (Checksum p) [] pkts) = Inr p')
       \<and> (\<forall>msgs1 p1 msgs2 p2.
            Parse fl p xs = Inr (msgs1, p1) \<and> Parse fl p (xs @ [b]) = Inr (msgs2, p2)
            \<and> msgs2 \<noteq> msgs1 \<longrightarrow>
            (\<exists>d. measured_error fl p1 b = Inr d \<and> update_tracker p1 d = Inr p2
                 \<and> currentFreqErr p2 = currentFreqErr p1 + d
                 \<and> channelFreqErr p2 =
                     (channelFreqErr p1)(hopPattern p ! unat (hopIdx p) \<mapsto> currentFreqErr p1 + d)
                 \<and> (\<exists>h q'. hop p2 = Inr (h, q') \<and> ChannelIdx h = hopPattern p ! unat (hopIdx p)
                      \<and> FreqError h = currentFreqErr p1 + d)))"
proof -
  let ?ch = "hopPattern p ! unat (hopIdx p)"
  let ?p1 = "p\<lparr>channelFreqErr := (channelFreqErr p)(?ch \<mapsto> currentFreqErr p + delta),
               currentFreqErr := currentFreqErr p + delta\<rparr>"
  have unvisited: "channelFreqErr p ?ch = None \<longrightarrow>
      (\<exists>h. hop p = Inr (h, p) \<and> ChannelIdx h = ?ch \<and> FreqError h = currentFreqErr p)"
    by (simp add: hop_reports [OF assms])
  have later: "\<exists>h q'. hop q = Inr (h, q') \<and> ChannelIdx h = ?ch
        \<and> FreqError h = currentFreqErr p + delta \<and> currentFreqErr q' = currentFreqErr p + delta"
    if "constructed q" "hopIdx_in_range q" "hopPattern q ! unat (hopIdx q) = ?ch"
      "channelFreqErr q ?ch = channelFreqErr ?p1 ?ch"
    using that(3,4) by (simp add: hop_reports [OF that(1,2)])
  have updated: "\<exists>p1. update_tracker p delta = Inr p1
            \<and> currentFreqErr p1 = currentFreqErr p + delta
            \<and> channelFreqErr p1 = (channelFreqErr p)(?ch \<mapsto> currentFreqErr p + delta)
            \<and> (constructed q \<and> hopIdx_in_range q \<and> hopPattern q ! unat (hopIdx q) = ?ch
                 \<and> channelFreqErr q ?ch = channelFreqErr p1 ?ch \<longrightarrow>
                 (\<exists>h q'. hop q = Inr (h, q') \<and> ChannelIdx h = ?ch
                      \<and> FreqError h = currentFreqErr p + delta
                      \<and> currentFreqErr q' = currentFreqErr p + delta))"
  proof (intro exI [of _ ?p1] conjI impI)
    show "update_tracker p delta = Inr ?p1"
      by (rule update_tracker_result [OF assms])
    show "currentFreqErr ?p1 = currentFreqErr p + delta"
      by simp
    show "channelFreqErr ?p1 = (channelFreqErr p)(?ch \<mapsto> currentFreqErr p + delta)"
      by simp
    assume "constructed q \<and> hopIdx_in_range q \<and> hopPattern q ! unat (hopIdx q) = ?ch
      \<and> channelFreqErr q ?ch = channelFreqErr ?p1 ?ch"
    then show "\<exists>h q'. hop q = Inr (h, q') \<and> ChannelIdx h = ?ch
        \<and> FreqError h = currentFreqErr p + delta \<and> currentFreqErr q' = currentFreqErr p + delta"
      using later by (elim conjE)
  qed
  have decoded: "\<forall>msgs p'. Parse fl p [pkt] = Inr (msgs, p') \<and> msgs \<noteq> [] \<longrightarrow>
            (\<exists>tail. go_slice (Discriminated p) (Idx pkt + 8 * SymbolLength (Cfg p))
                       (Idx pkt + 24 * SymbolLength (Cfg p)) = Inr tail
                  \<and> update_tracker p (freqError_of fl tail (SampleRate (Cfg p))) = Inr p')"
    using Parse_single_decoded by (intro allI impI) (elim conjE)
  have tracked: "\<forall>msgs p'. Parse fl p pkts = Inr (msgs, p') \<longrightarrow>
            spec_tracker fl p (spec_accepted (Checksum p) [] pkts) = Inr p'"
  proof (intro allI impI)
    fix msgs p'
    assume "Parse fl p pkts = Inr (msgs, p')"
    then obtain seen' where "Parse_loop fl (Map.empty, [], p) pkts = Inr (seen', msgs, p')"
      by (auto simp: Parse_def split: sum.splits)
    from Parse_loop_tracker [OF this, of "[]"]
    show "spec_tracker fl p (spec_accepted (Checksum p) [] pkts) = Inr p'"
      by (simp add: seen_lookup_def)
  qed
  have each: "\<forall>msgs1 p1 msgs2 p2.
            Parse fl p xs = Inr (msgs1, p1) \<and> Parse fl p (xs @ [b]) = Inr (msgs2, p2)
            \<and> msgs2 \<noteq> msgs1 \<longrightarrow>
            (\<exists>d. measured_error fl p1 b = Inr d \<and> update_tracker p1 d = Inr p2
                 \<and> currentFreqErr p2 = currentFreqErr p1 + d
                 \<and> channelFreqErr p2 = (channelFreqErr p1)(?ch \<mapsto> currentFreqErr p1 + d)
                 \<and> (\<exists>h q'. hop p2 = Inr (h, q') \<and> ChannelIdx h = ?ch
                      \<and> FreqError h = currentFreqErr p1 + d))"
  proof (intro allI impI, elim conjE)
    fix msgs1 p1 msgs2 p2
    assume a: "Parse fl p xs = Inr (msgs1, p1)" "Parse fl p (xs @ [b]) = Inr (msgs2, p2)"
      "msgs2 \<noteq> msgs1"
    from a(1) obtain s1 where l1: "Parse_loop fl (Map.empty, [], p) xs = Inr (s1, msgs1, p1)"
      by (auto simp: Parse_def split: sum.splits)
    from a(2) obtain s2 where "Parse_loop fl (Map.empty, [], p) (xs @ [b]) = Inr (s2, msgs2, p2)"
      by (auto simp: Parse_def split: sum.splits)
    with l1 have body: "Parse_body fl (s1, msgs1, p1) b = Inr (s2, msgs2, p2)"
      by (simp add: Parse_loop_append split: sum.splits)
    from Parse_body_decodes [OF body a(3)] obtain d where
      d: "measured_error fl p1 b = Inr d" "update_tracker p1 d = Inr p2"
      by blast
    note f = Parse_loop_frame [OF l1]
    from frame_invariants [OF f] assms have inv1: "constructed p1" "hopIdx_in_range p1"
      and idx: "hopIdx p1 = hopIdx p"
      by simp_all
    from inv1(1) assms(1) have pat: "hopPattern p1 = hopPattern p"
      by (simp add: constructed_def)
    let ?p2 = "p1\<lparr>channelFreqErr := (channelFreqErr p1)(?ch \<mapsto> currentFreqErr p1 + d),
                 currentFreqErr := currentFreqErr p1 + d\<rparr>"
    from update_tracker_result [OF inv1, of d] d(2) have p2: "p2 = ?p2"
      by (simp add: idx pat)
    from inv1 have inv2: "constructed ?p2" "hopIdx_in_range ?p2"
      by (simp_all add: constructed_def hopIdx_in_range_def)
    have "\<exists>h q'. hop ?p2 = Inr (h, q') \<and> ChannelIdx h = ?ch
        \<and> FreqError h = currentFreqErr p1 + d"
      by (simp add: hop_reports [OF inv2] idx pat)
    moreover have "currentFreqErr ?p2 = currentFreqErr p1 + d"
      and "channelFreqErr ?p2 = (channelFreqErr p1)(?ch \<mapsto> currentFreqErr p1 + d)"
      by simp_all
    ultimately show "\<exists>d. measured_error fl p1 b = Inr d \<and> update_tracker p1 d = Inr p2
                 \<and> currentFreqErr p2 = currentFreqErr p1 + d
                 \<and> channelFreqErr p2 = (channelFreqErr p1)(?ch \<mapsto> currentFreqErr p1 + d)
                 \<and> (\<exists>h q'. hop p2 = Inr (h, q') \<and> ChannelIdx h = ?ch
                      \<and> FreqError h = currentFreqErr p1 + d)"
      using d unfolding p2 by (intro exI [of _ d] conjI)
  qed
  show ?thesis
    by (rule conjI [OF unvisited conjI [OF updated conjI [OF decoded conjI [OF tracked each]]]])
qed

lemma example_second_swap:
  "map SwapBitOrder (Data example_second) = [0xD3, 0x91, 0x51, 0x07, 0x20, 0x76]"
  by (simp add: example_second_def SwapBitOrder_def)

lemma example_Parse_two:
  "Parse integer_ops example_parser [example_packet, example_second] =
     Inr ([\<lparr>Idx = 0, Data = [0x83, 0x0C, 0xC8, 0x47], MsgID = 3, Sensor = 8,
            WindSpeed = 12, WindDirection = 200\<rparr>,
           \<lparr>Idx = 0, Data = [0x51, 0x07, 0x20, 0x76], MsgID = 1, Sensor = 5,
            WindSpeed = 7, WindDirection = 32\<rparr>],
          example_parser\<lparr>channelFreqErr := (channelFreqErr example_parser)(6 \<mapsto> 20),
                           currentFreqErr := 20\<rparr>)"
proof -
  let ?P1 = "example_parser\<lparr>channelFreqErr := (channelFreqErr example_parser)(6 \<mapsto> 70),
                           currentFreqErr := 70\<rparr>"
  have c: "constructed example_parser" "constructed ?P1"
    by (simp_all add: constructed_def example_parser_def)
  have r: "hopIdx_in_range example_parser" "hopIdx_in_range ?P1"
    by (simp_all add: hopIdx_in_range_def example_parser_def word_sle_eq word_sless_alt)
  have f: "Cfg example_parser = \<lparr>SymbolLength = 1, SampleRate = 6\<rparr>"
    "Checksum example_parser = xor_checksum" "hopIdx example_parser = 6"
    "hopPattern example_parser = [0, 4, 8, 1, 5, 3, 6, 2, 7]" "currentFreqErr example_parser = 120"
    by (simp_all add: example_parser_def)
  have i: "Idx example_packet = 0" "Idx example_second = 0"
    by (simp_all add: example_packet_def example_second_def)
  have k: "xor_checksum [0x83, 0x0C, 0xC8, 0x47] = 0" "xor_checksum [0x51, 0x07, 0x20, 0x76] = 0"
    by (simp_all add: xor_checksum_def)
  have m: "NewMessage (example_packet\<lparr>Data := [0xD3, 0x91, 0x83, 0x0C, 0xC8, 0x47]\<rparr>) =
    Inr \<lparr>Idx = 0, Data = [0x83, 0x0C, 0xC8, 0x47], MsgID = 3, Sensor = 8,
            WindSpeed = 12, WindDirection = 200\<rparr>"
    "NewMessage (example_second\<lparr>Data := [0xD3, 0x91, 0x51, 0x07, 0x20, 0x76]\<rparr>) =
    Inr \<lparr>Idx = 0, Data = [0x51, 0x07, 0x20, 0x76], MsgID = 1, Sensor = 5,
            WindSpeed = 7, WindDirection = 32\<rparr>"
    by (simp_all add: NewMessage_def go_index_def word_sle_eq i)
  show ?thesis
    by (simp add: Parse_def Parse_body_def seen_lookup_def go_slice_from_def example_swap
        example_second_swap f i k m example_measure [simplified]
        update_tracker_result [OF c(1) r(1)] update_tracker_result [OF c(2) r(2)])
qed

lemma example_accepted_two:
  "spec_accepted (Checksum example_parser) [] [example_packet, example_second] =
     [example_packet, example_second]"
  by (simp add: reversed_def example_swap example_second_swap xor_checksum_def example_parser_def)

lemma example_measured_second:
  "measured_error integer_ops
     (example_parser\<lparr>channelFreqErr := (channelFreqErr example_parser)(6 \<mapsto> 70),
                      currentFreqErr := 70\<rparr>) example_second = Inr (- 50)"
proof -
  have f: "Cfg example_parser = \<lparr>SymbolLength = 1, SampleRate = 6\<rparr>"
    by (simp add: example_parser_def)
  show ?thesis
    by (simp add: measured_error_def f example_second_def example_measure [simplified])
qed

theorem frequency_tracking_round_trip_witness:
  "constructed example_parser \<and> hopIdx_in_range example_parser
   \<and> channelFreqErr example_parser (hopPattern example_parser ! unat (hopIdx example_parser)) = None
   \<and> (\<exists>h. hop example_parser = Inr (h, example_parser) \<and> ChannelIdx h = 6 \<and> FreqError h = 120)
   \<and> (\<exists>msgs p'. Parse integer_ops example_parser [example_packet] = Inr (msgs, p') \<and> msgs \<noteq> []
        \<and> update_tracker example_parser (- 50) = Inr p'
        \<and> (\<exists>h q'. hop p' = Inr (h, q') \<and> ChannelIdx h = 6 \<and> FreqError h = 70
               \<and> currentFreqErr q' = 70))
   \<and> (\<exists>msgs p'. Parse integer_ops example_parser [example_packet, example_second] = Inr (msgs, p')
        \<and> length msgs = 2
        \<and> spec_tracker integer_ops example_parser [example_packet, example_second] = Inr p'
        \<and> measured_error integer_ops
              (example_parser\<lparr>channelFreqErr := (channelFreqErr example_parser)(6 \<mapsto> 70),
                               currentFreqErr := 70\<rparr>) example_second = Inr (- 50)
        \<and> update_tracker
              (example_parser\<lparr>channelFreqErr := (channelFreqErr example_parser)(6 \<mapsto> 70),
                               currentFreqErr := 70\<rparr>) (- 50) = Inr p'
        \<and> currentFreqErr p' = 20
        \<and> (\<exists>h q'. hop p' = Inr (h, q') \<and> ChannelIdx h = 6 \<and> FreqError h = 20))"
proof -
  let ?P1 = "example_parser\<lparr>channelFreqErr := (channelFreqErr example_parser)(6 \<mapsto> 70),
                           currentFreqErr := 70\<rparr>"
  let ?m = "\<lparr>Idx = 0, Data = [0x83, 0x0C, 0xC8, 0x47], MsgID = 3, Sensor = 8,
            WindSpeed = 12, WindDirection = 200\<rparr>"
  have c: "constructed example_parser"
    by (simp add: constructed_def example_parser_def)
  have r: "hopIdx_in_range example_parser"
    by (simp add: hopIdx_in_range_def example_parser_def word_sle_eq word_sless_alt)
  have ch: "hopPattern example_parser ! unat (hopIdx example_parser) = 6"
    and cur: "currentFreqErr example_parser = 120"
    and cfg: "Cfg example_parser = \<lparr>SymbolLength = 1, SampleRate = 6\<rparr>"
    by (simp_all add: example_parser_def)
  have none: "channelFreqErr example_parser (hopPattern example_parser ! unat (hopIdx example_parser)) = None"
    by (simp add: example_parser_def)
  let ?P2 = "example_parser\<lparr>channelFreqErr := (channelFreqErr example_parser)(6 \<mapsto> 20),
                           currentFreqErr := 20\<rparr>"
  let ?m2 = "\<lparr>Idx = 0, Data = [0x51, 0x07, 0x20, 0x76], MsgID = 1, Sensor = 5,
            WindSpeed = 7, WindDirection = 32\<rparr>"
  note T = frequency_tracking_round_trip [OF c r, of "- 50" ?P1 integer_ops example_packet
      "[example_packet, example_second]" "[example_packet]" example_second]
  from T [THEN conjunct1, THEN mp, OF none]
  have first: "\<exists>h. hop example_parser = Inr (h, example_parser) \<and> ChannelIdx h = 6 \<and> FreqError h = 120"
    by (simp add: ch cur)
  from T [THEN conjunct2, THEN conjunct1] obtain p1 where
    all: "update_tracker example_parser (- 50) = Inr p1 \<and>
       currentFreqErr p1 = currentFreqErr example_parser + - 50 \<and>
       channelFreqErr p1 =
           (channelFreqErr example_parser)(hopPattern example_parser ! unat (hopIdx example_parser)
              \<mapsto> currentFreqErr example_parser + - 50) \<and>
       (constructed ?P1 \<and> hopIdx_in_range ?P1
        \<and> hopPattern ?P1 ! unat (hopIdx ?P1) = hopPattern example_parser ! unat (hopIdx example_parser)
        \<and> channelFreqErr ?P1 (hopPattern example_parser ! unat (hopIdx example_parser))
            = channelFreqErr p1 (hopPattern example_parser ! unat (hopIdx example_parser)) \<longrightarrow>
        (\<exists>h q'. hop ?P1 = Inr (h, q')
            \<and> ChannelIdx h = hopPattern example_parser ! unat (hopIdx example_parser)
            \<and> FreqError h = currentFreqErr example_parser + - 50
            \<and> currentFreqErr q' = currentFreqErr example_parser + - 50))"
    by (rule exE)
  note p1 = all [THEN conjunct2, THEN conjunct2, THEN conjunct1]
  note imp = all [THEN conjunct2, THEN conjunct2, THEN conjunct2]
  have "constructed ?P1 \<and> hopIdx_in_range ?P1
        \<and> hopPattern ?P1 ! unat (hopIdx ?P1) = hopPattern example_parser ! unat (hopIdx example_parser)
        \<and> channelFreqErr ?P1 (hopPattern example_parser ! unat (hopIdx example_parser))
            = channelFreqErr p1 (hopPattern example_parser ! unat (hopIdx example_parser))"
  proof (intro conjI)
    show "constructed ?P1"
      by (simp add: constructed_def example_parser_def)
    show "hopIdx_in_range ?P1"
      by (simp add: hopIdx_in_range_def example_parser_def word_sle_eq word_sless_alt)
    show "hopPattern ?P1 ! unat (hopIdx ?P1) = hopPattern example_parser ! unat (hopIdx example_parser)"
      by simp
    show "channelFreqErr ?P1 (hopPattern example_parser ! unat (hopIdx example_parser))
        = channelFreqErr p1 (hopPattern example_parser ! unat (hopIdx example_parser))"
      by (simp add: p1 ch cur)
  qed
  from imp [THEN mp, OF this]
  have later: "\<exists>h q'. hop ?P1 = Inr (h, q') \<and> ChannelIdx h = 6 \<and> FreqError h = 70
      \<and> currentFreqErr q' = 70"
    by (simp add: ch cur)
  have parse: "Parse integer_ops example_parser [example_packet] = Inr ([?m], ?P1) \<and> [?m] \<noteq> []"
    by (simp add: example_Parse)
  from T [THEN conjunct2, THEN conjunct2, THEN conjunct1, THEN spec, THEN spec, THEN mp, OF parse]
  have upd: "update_tracker example_parser (- 50) = Inr ?P1"
    by (simp add: cfg example_packet_def example_measure [simplified])
  from parse upd later
  have "\<exists>msgs p'. Parse integer_ops example_parser [example_packet] = Inr (msgs, p') \<and> msgs \<noteq> []
        \<and> update_tracker example_parser (- 50) = Inr p'
        \<and> (\<exists>h q'. hop p' = Inr (h, q') \<and> ChannelIdx h = 6 \<and> FreqError h = 70
               \<and> currentFreqErr q' = 70)"
    by (intro exI [of _ "[?m]"] exI [of _ ?P1]) (intro conjI, simp_all)
  then have one: "\<exists>msgs p'. Parse integer_ops example_parser [example_packet] = Inr (msgs, p') \<and> msgs \<noteq> []
        \<and> update_tracker example_parser (- 50) = Inr p'
        \<and> (\<exists>h q'. hop p' = Inr (h, q') \<and> ChannelIdx h = 6 \<and> FreqError h = 70
               \<and> currentFreqErr q' = 70)" .
  have two: "Parse integer_ops example_parser [example_packet, example_second] = Inr ([?m, ?m2], ?P2)"
    by (rule example_Parse_two)
  from T [THEN conjunct2, THEN conjunct2, THEN conjunct2, THEN conjunct1, THEN spec, THEN spec,
      THEN mp, OF two]
  have tracked: "spec_tracker integer_ops example_parser [example_packet, example_second] = Inr ?P2"
    by (simp only: example_accepted_two)
  have "Parse integer_ops example_parser [example_packet] = Inr ([?m], ?P1)
      \<and> Parse integer_ops example_parser ([example_packet] @ [example_second]) = Inr ([?m, ?m2], ?P2)
      \<and> [?m, ?m2] \<noteq> [?m]"
    by (simp add: example_Parse two)
  from T [THEN conjunct2, THEN conjunct2, THEN conjunct2, THEN conjunct2, THEN spec, THEN spec,
      THEN spec, THEN spec, THEN mp, OF this]
  obtain d where
    d: "measured_error integer_ops ?P1 example_second = Inr d \<and> update_tracker ?P1 d = Inr ?P2
        \<and> currentFreqErr ?P2 = currentFreqErr ?P1 + d
        \<and> channelFreqErr ?P2 =
            (channelFreqErr ?P1)(hopPattern example_parser ! unat (hopIdx example_parser)
               \<mapsto> currentFreqErr ?P1 + d)
        \<and> (\<exists>h q'. hop ?P2 = Inr (h, q')
             \<and> ChannelIdx h = hopPattern example_parser ! unat (hopIdx example_parser)
             \<and> FreqError h = currentFreqErr ?P1 + d)"
    by (rule exE)
  from d [THEN conjunct1] have dv: "d = - 50"
    by (simp add: example_measured_second)
  from d [THEN conjunct2, THEN conjunct1] have upd2: "update_tracker ?P1 (- 50) = Inr ?P2"
    by (simp only: dv)
  from d [THEN conjunct2, THEN conjunct2, THEN conjunct2, THEN conjunct2]
  have hop2: "\<exists>h q'. hop ?P2 = Inr (h, q') \<and> ChannelIdx h = 6 \<and> FreqError h = 20"
    by (simp add: dv ch)
  have cur2: "currentFreqErr ?P2 = 20"
    by simp
  have len2: "length [?m, ?m2] = 2"
    by simp
  have batch: "\<exists>msgs p'. Parse integer_ops example_parser [example_packet, example_second] = Inr (msgs, p')
        \<and> length msgs = 2
        \<and> spec_tracker integer_ops example_parser [example_packet, example_second] = Inr p'
        \<and> measured_error integer_ops ?P1 example_second = Inr (- 50)
        \<and> update_tracker ?P1 (- 50) = Inr p'
        \<and> currentFreqErr p' = 20
        \<and> (\<exists>h q'. hop p' = Inr (h, q') \<and> ChannelIdx h = 6 \<and> FreqError h = 20)"
    by (intro exI [of _ "[?m, ?m2]"] exI [of _ ?P2])
       (rule conjI [OF two conjI [OF len2 conjI [OF tracked conjI [OF example_measured_second
          conjI [OF upd2 conjI [OF cur2 hop2]]]]]])
  show ?thesis
    by (rule conjI [OF c conjI [OF r conjI [OF none conjI [OF first conjI [OF one batch]]]]])
qed

end
